theory Spec2Isabelle
  imports Main "HOL-Library.Multiset" "HOL-Library.AList"
begin

section \<open>Data model (types.ts)\<close>

text \<open>
  \<^verbatim>\<open>export type NodeType = 'folder' | 'file';\<close>
\<close>

datatype NodeType = Folder | File

text \<open>
  \<^verbatim>\<open>interface FileSystemNode { id; name; type; children?; isExpanded? }\<close>

  The two optional fields are \<open>option\<close>s: \<open>None\<close> is JavaScript's \<open>undefined\<close>.
  An array is truthy even when empty, so \<open>if (node.children)\<close> tests for \<open>Some\<close>.

  The tree engine compares nodes with \<open>!==\<close>, that is by object identity, and the
  objects are never mutated after they have been built. Every node therefore carries
  the address \<open>addr\<close> of the object it is; building an object (\<open>{ ...node, ... }\<close>)
  takes the next free address from a counter that is threaded through the code, and
  \<open>a !== b\<close> is \<open>addr a \<noteq> addr b\<close>.

  A state of the program is a tree together with the next free address \<open>h\<close>. The
  objects of the current tree were all built before, so in every state the program
  reaches their addresses lie below \<open>h\<close>: \<open>\<forall>m\<in>set (nodes t). addr m < h\<close>. The
  theorems that compare what a walk returns with what it was given assume this.
\<close>

datatype FileSystemNode =
  Node (addr: nat) (nid: string) (nname: string) (ntype: NodeType)
       (children: "FileSystemNode list option") (isExpanded: "bool option")

text \<open>
  The argument \<open>logic\<close> of \<open>modifyTree\<close>: it receives a node and may build new
  objects, so it takes the next free address and returns the one after its last
  allocation. \<open>None\<close> is \<open>null\<close>.
\<close>

type_synonym rule = "FileSystemNode \<Rightarrow> nat \<Rightarrow> FileSystemNode option \<times> nat"

section \<open>The tree engine (App.tsx)\<close>

text \<open>
  \<open>newChildren.some((child, index) => child !== node.children[index])\<close>; it is only
  evaluated when both arrays have the same length (\<open>||\<close> short-circuits).
\<close>

definition someDiffers :: "FileSystemNode list \<Rightarrow> FileSystemNode list \<Rightarrow> bool" where
  "someDiffers newChildren oldChildren =
     list_ex (\<lambda>index. addr (newChildren ! index) \<noteq> addr (oldChildren ! index))
             [0..<length newChildren]"

text \<open>
  \<open>modifyTree\<close>, lines 90-105. \<open>modifyChildren\<close> is
  \<open>node.children.map(child => modifyTree(child, logic)).filter(child => child !== null)\<close>:
  the children are processed left to right and the \<open>null\<close> results dropped.
\<close>

fun modifyTree :: "rule \<Rightarrow> FileSystemNode \<Rightarrow> nat \<Rightarrow> FileSystemNode option \<times> nat"
  and modifyChildren :: "rule \<Rightarrow> FileSystemNode list \<Rightarrow> nat \<Rightarrow> FileSystemNode list \<times> nat"
where
  "modifyTree logic (Node a i n t None e) h = logic (Node a i n t None e) h"
| "modifyTree logic (Node a i n t (Some cs) e) h =
     (case modifyChildren logic cs h of (newChildren, h1) \<Rightarrow>
        let childrenChanged =
              (length newChildren \<noteq> length cs \<or> someDiffers newChildren cs)
        in if childrenChanged
           then logic (Node h1 i n t (Some newChildren) e) (Suc h1)
           else logic (Node a i n t (Some cs) e) h1)"
| "modifyChildren logic [] h = ([], h)"
| "modifyChildren logic (c # cs) h =
     (case modifyTree logic c h of (r, h1) \<Rightarrow>
        case modifyChildren logic cs h1 of (rs, h2) \<Rightarrow>
          (case r of None \<Rightarrow> rs | Some c' \<Rightarrow> c' # rs, h2))"

text \<open>
  \<open>updateTree\<close>, lines 226-232: the state updater passed to \<open>setTree\<close>, applied to the
  current tree.
\<close>

definition updateTree :: "rule \<Rightarrow> FileSystemNode option \<Rightarrow> nat \<Rightarrow> FileSystemNode option \<times> nat" where
  "updateTree logic currentTree h =
     (case currentTree of None \<Rightarrow> (None, h) | Some t \<Rightarrow> modifyTree logic t h)"

text \<open>
  \<open>handleAddNode\<close>, lines 234-252. \<open>Date.now()\<close> and \<open>Math.random()\<close> are inputs:
  \<open>now\<close> and \<open>rand\<close> are their renderings in the template string. The object
  \<open>newNodeData\<close> is built once, before the tree is walked.
\<close>

definition newNodeData :: "nat \<Rightarrow> string \<Rightarrow> string \<Rightarrow> string \<Rightarrow> string \<Rightarrow> NodeType \<Rightarrow> FileSystemNode" where
  "newNodeData a parentId now rand name type =
     Node a (parentId @ ''-'' @ now @ ''-'' @ rand) name type
          (if type = Folder then Some [] else None)
          (if type = Folder then Some True else None)"

definition handleAddNode_logic :: "string \<Rightarrow> FileSystemNode \<Rightarrow> rule" where
  "handleAddNode_logic parentId newNode node k =
     (if nid node = parentId \<and> ntype node = Folder
      then (Some (Node k (nid node) (nname node) (ntype node)
                    (Some ((case children node of None \<Rightarrow> [] | Some cs \<Rightarrow> cs) @ [newNode]))
                    (Some True)), Suc k)
      else (Some node, k))"

definition handleAddNode ::
  "string \<Rightarrow> string \<Rightarrow> NodeType \<Rightarrow> string \<Rightarrow> string \<Rightarrow> FileSystemNode option \<Rightarrow> nat
     \<Rightarrow> FileSystemNode option \<times> nat" where
  "handleAddNode parentId name type now rand tree h =
     updateTree (handleAddNode_logic parentId (newNodeData h parentId now rand name type))
       tree (Suc h)"

text \<open>\<open>handleDeleteNode\<close>, lines 254-260.\<close>

definition handleDeleteNode_logic :: "string \<Rightarrow> rule" where
  "handleDeleteNode_logic nodeId node k = (if nid node = nodeId then None else Some node, k)"

definition handleDeleteNode :: "string \<Rightarrow> FileSystemNode option \<Rightarrow> nat \<Rightarrow> FileSystemNode option \<times> nat" where
  "handleDeleteNode nodeId tree h =
     (if nodeId = ''root'' then (tree, h)
      else updateTree (handleDeleteNode_logic nodeId) tree h)"

text \<open>\<open>handleRenameNode\<close>, lines 280-288.\<close>

definition handleRenameNode_logic :: "string \<Rightarrow> string \<Rightarrow> rule" where
  "handleRenameNode_logic nodeId newName node k =
     (if nid node = nodeId
      then (Some (Node k (nid node) newName (ntype node) (children node) (isExpanded node)), Suc k)
      else (Some node, k))"

definition handleRenameNode ::
  "string \<Rightarrow> string \<Rightarrow> FileSystemNode option \<Rightarrow> nat \<Rightarrow> FileSystemNode option \<times> nat" where
  "handleRenameNode nodeId newName tree h =
     updateTree (handleRenameNode_logic nodeId newName) tree h"

text \<open>
  \<open>handleToggleExpand\<close>, lines 290-298. \<open>!node.isExpanded\<close> is \<open>false\<close> exactly when the
  flag is \<open>true\<close>; \<open>undefined\<close> and \<open>false\<close> both negate to \<open>true\<close>.
\<close>

definition handleToggleExpand_logic :: "string \<Rightarrow> rule" where
  "handleToggleExpand_logic nodeId node k =
     (if nid node = nodeId \<and> ntype node = Folder
      then (Some (Node k (nid node) (nname node) (ntype node) (children node)
                    (Some (isExpanded node \<noteq> Some True))), Suc k)
      else (Some node, k))"

definition handleToggleExpand :: "string \<Rightarrow> FileSystemNode option \<Rightarrow> nat \<Rightarrow> FileSystemNode option \<times> nat" where
  "handleToggleExpand nodeId tree h = updateTree (handleToggleExpand_logic nodeId) tree h"

text \<open>
  \<open>setAllExpanded\<close>, lines 300-313. \<open>recursiveSet\<close> copies the node first
  (\<open>{ ...node }\<close>), then, for a folder only, sets the flag and maps itself over the
  children; the copy of a file keeps the children array of the original.
\<close>

fun recursiveSet :: "bool \<Rightarrow> FileSystemNode \<Rightarrow> nat \<Rightarrow> FileSystemNode \<times> nat"
  and recursiveSetAll :: "bool \<Rightarrow> FileSystemNode list \<Rightarrow> nat \<Rightarrow> FileSystemNode list \<times> nat"
where
  "recursiveSet v (Node a i n t ch e) h =
     (if t = Folder
      then (case ch of
              None \<Rightarrow> (Node h i n t None (Some v), Suc h)
            | Some cs \<Rightarrow> (case recursiveSetAll v cs (Suc h) of (cs', h') \<Rightarrow>
                          (Node h i n t (Some cs') (Some v), h')))
      else (Node h i n t ch e, Suc h))"
| "recursiveSetAll v [] h = ([], h)"
| "recursiveSetAll v (c # cs) h =
     (case recursiveSet v c h of (c', h1) \<Rightarrow>
        case recursiveSetAll v cs h1 of (cs', h2) \<Rightarrow> (c' # cs', h2))"

definition setAllExpanded :: "bool \<Rightarrow> FileSystemNode option \<Rightarrow> nat \<Rightarrow> FileSystemNode option \<times> nat" where
  "setAllExpanded v tree h =
     (case tree of
        None \<Rightarrow> (None, h)
      | Some t \<Rightarrow> (case recursiveSet v t h of (t', h') \<Rightarrow> (Some t', h')))"

section \<open>Observations on trees\<close>

text \<open>All nodes of a tree in pre-order, whatever their type.\<close>

fun nodes :: "FileSystemNode \<Rightarrow> FileSystemNode list"
  and nodesAll :: "FileSystemNode list \<Rightarrow> FileSystemNode list"
where
  "nodes (Node a i n t ch e) =
     Node a i n t ch e # (case ch of None \<Rightarrow> [] | Some cs \<Rightarrow> nodesAll cs)"
| "nodesAll [] = []"
| "nodesAll (c # cs) = nodes c @ nodesAll cs"

definition ids :: "FileSystemNode \<Rightarrow> string list" where
  "ids t = map nid (nodes t)"

text \<open>
  What a node shows apart from its address and its children's contents: id, name, type,
  flag and the number of its children. The pre-order list of these determines the tree
  up to addresses.
\<close>

definition view :: "FileSystemNode \<Rightarrow> string \<times> string \<times> NodeType \<times> bool option \<times> nat option" where
  "view n = (nid n, nname n, ntype n, isExpanded n, map_option length (children n))"

text \<open>
  The tree with addresses and flags forgotten: what two trees share when they are
  identical except in their \<open>isExpanded\<close> flags.
\<close>

fun skeleton :: "FileSystemNode \<Rightarrow> FileSystemNode"
  and skeletonAll :: "FileSystemNode list \<Rightarrow> FileSystemNode list"
where
  "skeleton (Node a i n t ch e) =
     Node 0 i n t (case ch of None \<Rightarrow> None | Some cs \<Rightarrow> Some (skeletonAll cs)) None"
| "skeletonAll [] = []"
| "skeletonAll (c # cs) = skeleton c # skeletonAll cs"

section \<open>The inline editor (components/DirectoryNode.tsx)\<close>

text \<open>
  \<open>String.prototype.trim\<close> removes white space and line terminators from both ends.
  A \<open>char\<close> is a code point below 256; of those, ECMAScript counts as white space
  U+0009 to U+000D, U+0020 and U+00A0.
\<close>

definition isWhiteSpace :: "char \<Rightarrow> bool" where
  "isWhiteSpace c = (of_char c \<in> {9, 10, 11, 12, 13, 32, 160 :: nat})"

definition trim :: "string \<Rightarrow> string" where
  "trim s = rev (dropWhile isWhiteSpace (rev (dropWhile isWhiteSpace s)))"

text \<open>The component state: \<open>useState\<close> cells \<open>isAdding\<close>, \<open>isRenaming\<close>, \<open>inputValue\<close>.\<close>

record DirectoryNodeState =
  isAdding :: "NodeType option"
  isRenaming :: bool
  inputValue :: string

text \<open>
  \<open>handleConfirm\<close>, lines 68-85, of the component that renders \<open>node\<close>, with
  \<open>onAddNode = handleAddNode\<close> and \<open>onRenameNode = handleRenameNode\<close> as \<open>App\<close> passes
  them. The empty string is the only falsy string, so \<open>!inputValue.trim()\<close> holds
  exactly when the trimmed input is empty. All paths end with the same three resets.
\<close>

definition handleConfirm ::
  "FileSystemNode \<Rightarrow> string \<Rightarrow> string \<Rightarrow> DirectoryNodeState \<Rightarrow> FileSystemNode option \<Rightarrow> nat
     \<Rightarrow> DirectoryNodeState \<times> FileSystemNode option \<times> nat" where
  "handleConfirm node now rand st tree h =
     (let reset = \<lparr>isAdding = None, isRenaming = False, inputValue = []\<rparr>
      in if trim (inputValue st) = [] then (reset, tree, h)
         else (case isAdding st of
                 Some type \<Rightarrow> (reset, handleAddNode (nid node) (inputValue st) type now rand tree h)
               | None \<Rightarrow>
                   if isRenaming st
                   then (reset, handleRenameNode (nid node) (inputValue st) tree h)
                   else (reset, tree, h)))"

section \<open>The archive builder (services/zipService.ts)\<close>

text \<open>
  The service only declares the library (\<open>declare const JSZip: any\<close>), so the library
  is a parameter: the archive under construction is a value of type \<open>'z\<close>, a folder
  handle in it a value of type \<open>'h\<close>.
  \<^item> \<open>zip_new\<close> is \<open>new JSZip()\<close>: the top-level handle and the empty archive;
  \<^item> \<open>zip_folder f name\<close> is \<open>f.folder(name)\<close>: it returns the handle of the folder;
  \<^item> \<open>zip_file f name data\<close> is \<open>f.file(name, data)\<close>;
  \<^item> \<open>zip_generateAsync\<close> is \<open>zip.generateAsync({ type: 'blob' })\<close> awaited: \<open>Inr\<close> the
    blob, \<open>Inl\<close> the error of a rejected promise.
\<close>

record ('h, 'z, 'e, 'b) JSZip =
  zip_new :: "'h \<times> 'z"
  zip_folder :: "'h \<Rightarrow> string \<Rightarrow> 'z \<Rightarrow> 'h \<times> 'z"
  zip_file :: "'h \<Rightarrow> string \<Rightarrow> string \<Rightarrow> 'z \<Rightarrow> 'z"
  zip_generateAsync :: "'z \<Rightarrow> 'e + 'b"

text \<open>\<open>addNodeToZip\<close>, lines 15-26; \<open>addChildrenToZip\<close> is its \<open>for ... of\<close> loop.\<close>

fun addNodeToZip :: "('h, 'z, 'e, 'b) JSZip \<Rightarrow> FileSystemNode \<Rightarrow> 'h \<Rightarrow> 'z \<Rightarrow> 'z"
  and addChildrenToZip :: "('h, 'z, 'e, 'b) JSZip \<Rightarrow> FileSystemNode list \<Rightarrow> 'h \<Rightarrow> 'z \<Rightarrow> 'z"
where
  "addNodeToZip J (Node a i n t ch e) zipFolder z =
     (if t = Folder
      then (case zip_folder J zipFolder n z of (newFolder, z1) \<Rightarrow>
              (case ch of None \<Rightarrow> z1 | Some cs \<Rightarrow> addChildrenToZip J cs newFolder z1))
      else zip_file J zipFolder n [] z)"
| "addChildrenToZip J [] zipFolder z = z"
| "addChildrenToZip J (c # cs) zipFolder z =
     addChildrenToZip J cs zipFolder (addNodeToZip J c zipFolder z)"

text \<open>
  What the user and the console see, in order: \<open>alert(msg)\<close>,
  \<open>console.error(msg, error)\<close>, and a download offered under a file name (the link
  that is built, clicked and removed).
\<close>

datatype ('e, 'b) effect = Alert string | ConsoleError string 'e | Download string 'b

text \<open>Lines 33-41 of \<open>createZipFromStructure\<close>: the archive handed to \<open>generateAsync\<close>.\<close>

definition populate :: "('h, 'z, 'e, 'b) JSZip \<Rightarrow> FileSystemNode \<Rightarrow> 'z" where
  "populate J rootNode =
     (case zip_new J of (zipTop, z0) \<Rightarrow>
        case zip_folder J zipTop (nname rootNode) z0 of (rootFolder, z1) \<Rightarrow>
          (case children rootNode of None \<Rightarrow> z1
           | Some cs \<Rightarrow> addChildrenToZip J cs rootFolder z1))"

text \<open>
  \<open>createZipFromStructure\<close>, lines 28-56. \<open>None\<close> for the library is
  \<open>typeof JSZip === 'undefined'\<close>. The second component is how the returned promise
  settles: \<open>Inr ()\<close> resolved, \<open>Inl error\<close> rejected. The \<open>catch\<close> of lines 52-55 handles
  the rejection of \<open>generateAsync\<close> inside the function.
\<close>

definition createZipFromStructure ::
  "('h, 'z, 'e, 'b) JSZip option \<Rightarrow> FileSystemNode \<Rightarrow> ('e, 'b) effect list \<times> ('e + unit)" where
  "createZipFromStructure lib rootNode =
     (case lib of
        None \<Rightarrow>
          ([Alert ''JSZip library not found. Please check your internet connection and try again.''],
           Inr ())
      | Some J \<Rightarrow>
          (case zip_generateAsync J (populate J rootNode) of
             Inr content \<Rightarrow> ([Download (nname rootNode @ ''.zip'') content], Inr ())
           | Inl error \<Rightarrow>
               ([ConsoleError ''Failed to generate zip file:'' error,
                 Alert ''An error occurred while creating the zip file.''], Inr ())))"

text \<open>\<open>handleDownload\<close>, App.tsx lines 325-336; \<open>isLoading\<close> ends as it began.\<close>

definition handleDownload ::
  "('h, 'z, 'e, 'b) JSZip option \<Rightarrow> FileSystemNode option \<Rightarrow> ('e, 'b) effect list" where
  "handleDownload lib tree =
     (case tree of
        None \<Rightarrow> []
      | Some t \<Rightarrow>
          (case createZipFromStructure lib t of
             (effects, Inr u) \<Rightarrow> effects
           | (effects, Inl error) \<Rightarrow>
               effects @ [ConsoleError [] error, Alert ''Failed to create zip file.'']))"

text \<open>
  Modelled from the spec: the archive writer, which is not part of the repository.
  An archive is the list of its entries, each a path with either a directory marker or
  the content of a file. As section 4.2 of the specification has it, \<open>folder\<close> creates
  or reuses the directory entry \<open>name\<close> under the current directory and makes it the
  new parent context, and \<open>file\<close> creates a file entry \<open>name\<close> with the given content
  under the current directory; paths are joined with \<open>/\<close> and a directory's path ends
  with \<open>/\<close>. A second file of the same path replaces the first. How generation ends
  is left open: \<open>gen\<close>.
\<close>

datatype ZipObject = Dir | FileData string

definition archiveWriter ::
  "((string \<times> ZipObject) list \<Rightarrow> 'e + 'b) \<Rightarrow> (string, (string \<times> ZipObject) list, 'e, 'b) JSZip" where
  "archiveWriter gen =
     \<lparr>zip_new = ([], []),
      zip_folder = (\<lambda>root name z.
         let path = root @ name @ ''/''
         in (path, if map_of z path = None then z @ [(path, Dir)] else z)),
      zip_file = (\<lambda>root name data z. AList.update (root @ name) (FileData data) z),
      zip_generateAsync = gen\<rparr>"

text \<open>
  What a node shows of its place in the tree: id, name, type, flag and the ids of its
  children in order. With unique ids the set of these determines the tree up to
  addresses.
\<close>

definition links ::
  "FileSystemNode \<Rightarrow> string \<times> string \<times> NodeType \<times> bool option \<times> string list option" where
  "links n = (nid n, nname n, ntype n, isExpanded n, map_option (map nid) (children n))"

text \<open>\<open>links\<close> of a node once the children with id \<open>target\<close> are struck from its list.\<close>

abbreviation unlink ::
  "string \<Rightarrow> FileSystemNode \<Rightarrow> string \<times> string \<times> NodeType \<times> bool option \<times> string list option" where
  "unlink target m \<equiv>
     (nid m, nname m, ntype m, isExpanded m,
      map_option (\<lambda>cs. filter (\<lambda>i. i \<noteq> target) (map nid cs)) (children m))"

text \<open>
  The nodes of a tree, in pre-order, that are neither a node with id \<open>target\<close> nor
  below one.
\<close>

fun kept :: "string \<Rightarrow> FileSystemNode \<Rightarrow> FileSystemNode list"
  and keptAll :: "string \<Rightarrow> FileSystemNode list \<Rightarrow> FileSystemNode list"
where
  "kept target (Node a i n t ch e) =
     (if i = target then []
      else Node a i n t ch e # (case ch of None \<Rightarrow> [] | Some cs \<Rightarrow> keptAll target cs))"
| "keptAll target [] = []"
| "keptAll target (c # cs) = kept target c @ keptAll target cs"

text \<open>The nodes the add rule matches, and what \<open>links\<close> of a node is after the rule.\<close>

abbreviation matches :: "string \<Rightarrow> FileSystemNode \<Rightarrow> bool" where
  "matches p m \<equiv> nid m = p \<and> ntype m = Folder"

abbreviation grow ::
  "string \<Rightarrow> FileSystemNode \<Rightarrow> FileSystemNode
     \<Rightarrow> string \<times> string \<times> NodeType \<times> bool option \<times> string list option" where
  "grow p new m \<equiv>
     (if matches p m
      then (nid m, nname m, ntype m, Some True,
            Some ((case children m of None \<Rightarrow> [] | Some cs \<Rightarrow> map nid cs) @ [nid new]))
      else links m)"

text \<open>
  \<open>m'\<close> is \<open>m\<close> after the add rule: same id, name and type, flag \<open>true\<close>, and the
  children of \<open>m\<close> (by id) followed by the new node itself.
\<close>

definition grownFrom :: "FileSystemNode \<Rightarrow> FileSystemNode \<Rightarrow> FileSystemNode \<Rightarrow> bool" where
  "grownFrom newNode m m' =
     (nid m' = nid m \<and> nname m' = nname m \<and> ntype m' = ntype m \<and> isExpanded m' = Some True
      \<and> (case children m' of None \<Rightarrow> False
          | Some cs' \<Rightarrow> cs' \<noteq> [] \<and> last cs' = newNode
              \<and> map nid (butlast cs') = (case children m of None \<Rightarrow> [] | Some cs \<Rightarrow> map nid cs)))"

text \<open>
  The path of every node of a tree in an archive, in pre-order: the names from the top
  joined with \<open>/\<close>, a folder's path ending with \<open>/\<close>. \<open>archivePaths\<close> lists them for
  a whole tree, whose root is the top-level directory. No flag is read.
\<close>

fun paths :: "string \<Rightarrow> FileSystemNode \<Rightarrow> string list"
  and pathsAll :: "string \<Rightarrow> FileSystemNode list \<Rightarrow> string list"
where
  "paths prefix (Node a i n t ch e) =
     (if t = Folder then prefix @ n @ ''/'' else prefix @ n)
     # (case ch of None \<Rightarrow> [] | Some cs \<Rightarrow> pathsAll (prefix @ n @ ''/'') cs)"
| "pathsAll prefix [] = []"
| "pathsAll prefix (c # cs) = paths prefix c @ pathsAll prefix cs"

definition archivePaths :: "FileSystemNode \<Rightarrow> string list" where
  "archivePaths rootNode =
     (nname rootNode @ ''/'')
     # (case children rootNode of None \<Rightarrow> []
        | Some cs \<Rightarrow> pathsAll (nname rootNode @ ''/'') cs)"

section \<open>Basic facts\<close>

lemma view_Node: "view (Node a i n t ch e) = (i, n, t, e, map_option length ch)"
  by (simp add: view_def)

lemma nodes_hd: "nodes n = n # (case children n of None \<Rightarrow> [] | Some cs \<Rightarrow> nodesAll cs)"
  by (cases n) simp

lemma self_in_nodes: "n \<in> set (nodes n)"
  by (cases n) simp

lemma child_in_nodesAll: "c \<in> set cs \<Longrightarrow> set (nodes c) \<subseteq> set (nodesAll cs)"
  by (induction cs) auto

lemma someDiffers_same: "map addr cs' = map addr cs \<Longrightarrow> \<not> someDiffers cs' cs"
proof -
  assume eq: "map addr cs' = map addr cs"
  then have len: "length cs' = length cs" by (metis length_map)
  have "addr (cs' ! i) = addr (cs ! i)" if "i < length cs'" for i
    using that eq len by (metis nth_map)
  then show ?thesis by (auto simp: someDiffers_def list_ex_iff)
qed

lemma someDiffers_head: "addr c' \<noteq> addr c \<Longrightarrow> someDiffers (c' # cs') (c # cs)"
  by (auto simp: someDiffers_def list_ex_iff intro!: bexI[of _ 0])

text \<open>
  In a walk that starts with every object of the tree below the next free address
  \<open>h\<close>, a child that comes back under its old address is the old child: whatever the
  walk builds has an address from \<open>h\<close> on.
\<close>

lemma unchanged_children:
  assumes same: "\<not> someDiffers cs' cs"
    and alt: "list_all2 (\<lambda>c' c. c' = c \<or> h \<le> addr c') cs' cs"
    and old: "\<forall>m\<in>set (nodesAll cs). addr m < h"
  shows "cs' = cs"
proof -
  have len: "length cs' = length cs" using alt by (rule list_all2_lengthD)
  show ?thesis
  proof (rule nth_equalityI[OF len])
    fix i assume i: "i < length cs'"
    then have "addr (cs' ! i) = addr (cs ! i)"
      using same by (auto simp: someDiffers_def list_ex_iff)
    moreover have "cs ! i \<in> set (nodesAll cs)"
      using i len child_in_nodesAll[of "cs ! i" cs] self_in_nodes[of "cs ! i"] by auto
    then have "addr (cs ! i) < h" using old by blast
    moreover have "cs' ! i = cs ! i \<or> h \<le> addr (cs' ! i)"
      using alt i by (simp add: list_all2_conv_all_nth)
    ultimately show "cs' ! i = cs ! i" by force
  qed
qed

section \<open>Rules that return every node as it is\<close>

lemma stable_all:
  "(\<forall>m\<in>set (nodes n). \<forall>k. fst (logic m k) = Some m) \<Longrightarrow> fst (modifyTree logic n h) = Some n"
  "(\<forall>m\<in>set (nodesAll cs). \<forall>k. fst (logic m k) = Some m) \<Longrightarrow> fst (modifyChildren logic cs h) = cs"
proof (induction logic n h and logic cs h rule: modifyTree_modifyChildren.induct)
  case (1 logic a i n t e h)
  then show ?case by simp
next
  case (2 logic a i n t cs e h)
  then have "fst (modifyChildren logic cs h) = cs" by simp
  then obtain h1 where "modifyChildren logic cs h = (cs, h1)"
    by (cases "modifyChildren logic cs h") simp
  then show ?case using 2(2) someDiffers_same[of cs cs] by simp
next
  case (3 logic h)
  then show ?case by simp
next
  case (4 logic c cs h)
  obtain r h1 where r: "modifyTree logic c h = (r, h1)" by (cases "modifyTree logic c h")
  obtain rs h2 where rs: "modifyChildren logic cs h1 = (rs, h2)"
    by (cases "modifyChildren logic cs h1")
  from 4 r have "r = Some c" by force
  moreover from 4(2)[OF r[symmetric]] 4(3) rs have "rs = cs" by force
  ultimately show ?case using r rs by simp
qed

section \<open>Rules that rewrite name or flag of the nodes they match\<close>

text \<open>
  The rename and the toggle rule have one shape: a node that matches \<open>P\<close> is copied with
  a new name \<open>fn\<close> and a new flag \<open>fe\<close>, any other node is returned as it is; and
  \<open>P\<close>, \<open>fn\<close> and \<open>fe\<close> read neither the address nor the children. Under such a rule
  the walk keeps the shape of the tree and rewrites exactly the matching nodes.
\<close>

lemma relabel_walk:
  fixes L :: rule
  assumes shape: "\<And>node k. L node k =
      (if P node
       then (Some (Node k (nid node) (fn node) (ntype node) (children node) (fe node)), Suc k)
       else (Some node, k))"
    and indep: "\<And>a b ch ch' i n t e. P (Node a i n t ch e) = P (Node b i n t ch' e)
        \<and> fn (Node a i n t ch e) = fn (Node b i n t ch' e)
        \<and> fe (Node a i n t ch e) = fe (Node b i n t ch' e)"
  shows "(\<forall>m\<in>set (nodes n). addr m < h) \<Longrightarrow>
         \<exists>n' h'. modifyTree L n h = (Some n', h') \<and> h \<le> h' \<and> (\<forall>m\<in>set (nodes n'). addr m < h')
           \<and> map view (nodes n') =
               map (\<lambda>m. if P m then (nid m, fn m, ntype m, fe m, map_option length (children m))
                        else view m) (nodes n)
           \<and> (n' = n \<or> h \<le> addr n') \<and> (P n \<longrightarrow> h \<le> addr n')"
    and "(\<forall>m\<in>set (nodesAll cs). addr m < h) \<Longrightarrow>
         \<exists>cs' h'. modifyChildren L cs h = (cs', h') \<and> h \<le> h'
           \<and> (\<forall>m\<in>set (nodesAll cs'). addr m < h')
           \<and> map view (nodesAll cs') =
               map (\<lambda>m. if P m then (nid m, fn m, ntype m, fe m, map_option length (children m))
                        else view m) (nodesAll cs)
           \<and> list_all2 (\<lambda>c' c. c' = c \<or> h \<le> addr c') cs' cs"
  using shape indep
proof (induction L n h and L cs h rule: modifyTree_modifyChildren.induct)
  case pr: (1 logic a i n t e h)
  show ?case using pr.prems(1) by (auto simp add: pr.prems(2) view_Node)
next
  case pr: (2 logic a i n t cs e h)
  from pr.prems(1) have old: "\<forall>m\<in>set (nodesAll cs). addr m < h" and olda: "a < h"
    by simp_all
  from pr.IH[OF old pr.prems(2,3)] obtain cs' h1 where
    c0: "modifyChildren logic cs h = (cs', h1)" "h \<le> h1"
      "map view (nodesAll cs') =
         map (\<lambda>m. if P m then (nid m, fn m, ntype m, fe m, map_option length (children m))
                  else view m) (nodesAll cs)"
      "\<forall>m\<in>set (nodesAll cs'). addr m < h1"
      "list_all2 (\<lambda>c' c. c' = c \<or> h \<le> addr c') cs' cs"
    by blast
  have len: "length cs' = length cs" using c0(5) by (rule list_all2_lengthD)
  have i1: "P (Node h1 i n t (Some cs') e) = P (Node a i n t (Some cs) e)"
    and i2: "fn (Node h1 i n t (Some cs') e) = fn (Node a i n t (Some cs) e)"
    and i3: "fe (Node h1 i n t (Some cs') e) = fe (Node a i n t (Some cs) e)"
    using pr.prems(3) by blast+
  let ?old = "Node a i n t (Some cs) e" and ?new = "Node h1 i n t (Some cs') e"
  have mt: "modifyTree logic ?old h =
      (if someDiffers cs' cs then logic ?new (Suc h1) else logic ?old h1)"
    using c0(1) len by simp
  show ?case
  proof (cases "someDiffers cs' cs")
    case True
    show ?thesis
      unfolding mt pr.prems(2)[of ?new "Suc h1"]
      using True c0(2,3,4) len i1 i2 i3 by (auto simp add: view_Node less_Suc_eq)
  next
    case False
    have eq: "cs' = cs" using unchanged_children[OF False c0(5) old] .
    show ?thesis
      unfolding mt pr.prems(2)[of ?old h1]
      using False c0(2,3,4) olda eq by (auto simp add: view_Node)
  qed
next
  case (3 logic h)
  then show ?case by simp
next
  case pr: (4 logic c cs h)
  from pr.prems(1) have oldc: "\<forall>m\<in>set (nodes c). addr m < h" by simp
  from pr.IH(1)[OF oldc pr.prems(2,3)] obtain c' h1 where
    c: "modifyTree logic c h = (Some c', h1)" "h \<le> h1"
     "map view (nodes c') =
        map (\<lambda>m. if P m then (nid m, fn m, ntype m, fe m, map_option length (children m))
                 else view m) (nodes c)"
     "c' = c \<or> h \<le> addr c'" "\<forall>m\<in>set (nodes c'). addr m < h1"
    by blast
  from pr.prems(1) have "\<forall>m\<in>set (nodesAll cs). addr m < h" by simp
  then have oldcs: "\<forall>m\<in>set (nodesAll cs). addr m < h1"
    using c(2) by (meson less_le_trans)
  from pr.IH(2)[OF c(1)[symmetric] oldcs pr.prems(2,3)] obtain cs' h2 where
    cs: "modifyChildren logic cs h1 = (cs', h2)" "h1 \<le> h2"
     "map view (nodesAll cs') =
        map (\<lambda>m. if P m then (nid m, fn m, ntype m, fe m, map_option length (children m))
                 else view m) (nodesAll cs)"
     "list_all2 (\<lambda>c' c. c' = c \<or> h1 \<le> addr c') cs' cs"
     "\<forall>m\<in>set (nodesAll cs'). addr m < h2"
    by blast
  have "list_all2 (\<lambda>c' c. c' = c \<or> h \<le> addr c') cs' cs"
    using cs(4) c(2) by (auto elim!: list_all2_mono)
  moreover have "\<forall>m\<in>set (nodesAll (c' # cs')). addr m < h2"
    using c(5) cs(2,5) by auto
  ultimately show ?case using c(1,2,3,4) cs(1,2,3) by simp
qed

lemma rename_shape:
  "handleRenameNode_logic t nm node k =
     (if nid node = t
      then (Some (Node k (nid node) ((\<lambda>_. nm) node) (ntype node) (children node)
                    (isExpanded node)), Suc k)
      else (Some node, k))"
  by (simp add: handleRenameNode_logic_def)

lemmas rename_walk =
  relabel_walk[where L="handleRenameNode_logic t nm" and P="\<lambda>m. nid m = t"
    and fn="\<lambda>_. nm" and fe=isExpanded for t nm, OF rename_shape, simplified]

lemma rename_localized:
  assumes old: "\<forall>m\<in>set (nodes (Node ar ir nr tr (Some [A, B]) er)). addr m < h"
    and A: "nid A = target" and B: "target \<notin> set (ids B)"
  shows "\<exists>root' A' h'.
           handleRenameNode target newName (Some (Node ar ir nr tr (Some [A, B]) er)) h
             = (Some root', h')
           \<and> addr root' \<noteq> ar \<and> children root' = Some [A', B]
           \<and> addr A' \<noteq> addr A \<and> nname A' = newName"
proof -
  let ?L = "handleRenameNode_logic target newName"
  have oldA: "\<forall>m\<in>set (nodes A). addr m < h" and ar: "ar < h" using old by simp_all
  from rename_walk(1)[OF oldA, of target newName] A obtain A' h1 where
    a: "modifyTree ?L A h = (Some A', h1)" "h \<le> h1" "h \<le> addr A'"
       "map view (nodes A') =
          map (\<lambda>m. if nid m = target
                   then (nid m, newName, ntype m, isExpanded m, map_option length (children m))
                   else view m) (nodes A)"
    by blast
  have "view A' = (nid A, newName, ntype A, isExpanded A, map_option length (children A))"
    using a(4) A by (simp add: nodes_hd[of A'] nodes_hd[of A])
  then have nm: "nname A' = newName" by (simp add: view_def)
  have "addr A < h" using oldA self_in_nodes[of A] by blast
  then have diff: "addr A' \<noteq> addr A" using a(3) by simp
  have "\<forall>m\<in>set (nodes B). \<forall>k. fst (?L m k) = Some m"
    using B by (auto simp: handleRenameNode_logic_def ids_def)
  from stable_all(1)[OF this] have "fst (modifyTree ?L B h1) = Some B" .
  then obtain h2 where b: "modifyTree ?L B h1 = (Some B, h2)"
    by (cases "modifyTree ?L B h1") simp
  have h2: "h \<le> h2"
  proof -
    have "\<forall>m\<in>set (nodes B). addr m < h1" using old a(2) by (auto elim: less_le_trans)
    from rename_walk(1)[OF this, of target newName] b have "h1 \<le> h2" by auto
    then show ?thesis using a(2) by simp
  qed
  have mc: "modifyChildren ?L [A, B] h = ([A', B], h2)" using a(1) b by simp
  have sd: "someDiffers [A', B] [A, B]" using diff by (rule someDiffers_head)
  have "modifyTree ?L (Node ar ir nr tr (Some [A, B]) er) h
          = ?L (Node h2 ir nr tr (Some [A', B]) er) (Suc h2)"
    using mc sd by simp
  then show ?thesis using ar h2 diff nm
    by (auto simp: handleRenameNode_def updateTree_def handleRenameNode_logic_def)
qed

section \<open>Referential stability (C1)\<close>

text \<open>
  C1. Referential stability of the walk, for every tree and every rule, in three parts.

  (i) A node none of whose children comes back as another object (the test the code
  makes: same number of children, the same address at each index), and which the rule,
  called after the walk of the children, returns as it is, is itself the result of
  \<open>modifyTree\<close>: the same object, not a copy.

  (ii) If the rule returns every node of the tree as it is, the tree that \<open>updateTree\<close>
  installs is the very object it was given.

  (iii) For a root with children \<open>[A, B]\<close>, all allocated before the call (their
  addresses lie below the next free address \<open>h\<close>), renaming by the id of \<open>A\<close>, an id
  that no node of \<open>B\<close> carries, installs a root at a new address whose children are a
  node at a new address that carries the new name, and \<open>B\<close> itself.
\<close>

theorem modifyTree_referential_stability:
  "((\<forall>cs. children n1 = Some cs \<longrightarrow> map addr (fst (modifyChildren logic1 cs h1)) = map addr cs)
      \<and> fst (logic1 n1 (case children n1 of None \<Rightarrow> h1
                         | Some cs \<Rightarrow> snd (modifyChildren logic1 cs h1))) = Some n1
     \<longrightarrow> fst (modifyTree logic1 n1 h1) = Some n1)
   \<and> ((\<forall>m\<in>set (nodes n2). \<forall>k. fst (logic2 m k) = Some m)
     \<longrightarrow> fst (updateTree logic2 (Some n2) h2) = Some n2)
   \<and> ((\<forall>m\<in>set (nodes (Node ar ir nr tr (Some [A, B]) er)). addr m < h3)
        \<and> nid A = target \<and> target \<notin> set (ids B)
     \<longrightarrow> (\<exists>root' A' h'.
           handleRenameNode target newName (Some (Node ar ir nr tr (Some [A, B]) er)) h3
             = (Some root', h')
           \<and> addr root' \<noteq> ar \<and> children root' = Some [A', B]
           \<and> addr A' \<noteq> addr A \<and> nname A' = newName))"
proof (intro conjI impI)
  assume a: "(\<forall>cs. children n1 = Some cs \<longrightarrow> map addr (fst (modifyChildren logic1 cs h1)) = map addr cs)
      \<and> fst (logic1 n1 (case children n1 of None \<Rightarrow> h1
                         | Some cs \<Rightarrow> snd (modifyChildren logic1 cs h1))) = Some n1"
  show "fst (modifyTree logic1 n1 h1) = Some n1"
  proof (cases n1)
    case (Node a i n t ch e)
    show ?thesis
    proof (cases ch)
      case None
      then show ?thesis using a Node by simp
    next
      case (Some cs)
      obtain cs' k where mc: "modifyChildren logic1 cs h1 = (cs', k)"
        by (cases "modifyChildren logic1 cs h1")
      have eq: "map addr cs' = map addr cs" using a Node Some mc by simp
      then have "length cs' = length cs" by (metis length_map)
      then show ?thesis using a Node Some mc someDiffers_same[OF eq] by simp
    qed
  qed
next
  assume "\<forall>m\<in>set (nodes n2). \<forall>k. fst (logic2 m k) = Some m"
  then show "fst (updateTree logic2 (Some n2) h2) = Some n2"
    by (simp add: updateTree_def stable_all(1))
next
  assume "(\<forall>m\<in>set (nodes (Node ar ir nr tr (Some [A, B]) er)). addr m < h3)
        \<and> nid A = target \<and> target \<notin> set (ids B)"
  then show "\<exists>root' A' h'.
           handleRenameNode target newName (Some (Node ar ir nr tr (Some [A, B]) er)) h3
             = (Some root', h')
           \<and> addr root' \<noteq> ar \<and> children root' = Some [A', B]
           \<and> addr A' \<noteq> addr A \<and> nname A' = newName"
    using rename_localized by blast
qed

theorem modifyTree_referential_stability_witness:
  "fst (modifyTree (handleRenameNode_logic ''a'' ''c.txt'')
          (Node 0 ''root'' ''my-project'' Folder
             (Some [Node 1 ''a'' ''a.txt'' File None None, Node 2 ''b'' ''b.txt'' File None None])
             (Some True)) 3)
     \<noteq> Some (Node 0 ''root'' ''my-project'' Folder
             (Some [Node 1 ''a'' ''a.txt'' File None None, Node 2 ''b'' ''b.txt'' File None None])
             (Some True))
   \<and> fst (modifyTree (handleRenameNode_logic ''a'' ''c.txt'')
          (Node 2 ''b'' ''b.txt'' File None None) 3)
     = Some (Node 2 ''b'' ''b.txt'' File None None)
   \<and> fst (updateTree (handleDeleteNode_logic ''zzz'')
          (Some (Node 0 ''root'' ''my-project'' Folder
             (Some [Node 1 ''a'' ''a.txt'' File None None, Node 2 ''b'' ''b.txt'' File None None])
             (Some True))) 3)
     = Some (Node 0 ''root'' ''my-project'' Folder
             (Some [Node 1 ''a'' ''a.txt'' File None None, Node 2 ''b'' ''b.txt'' File None None])
             (Some True))
   \<and> (\<exists>root' A' h'.
        handleRenameNode ''a'' ''c.txt''
          (Some (Node 0 ''root'' ''my-project'' Folder
             (Some [Node 1 ''a'' ''a.txt'' File None None, Node 2 ''b'' ''b.txt'' File None None])
             (Some True))) 3 = (Some root', h')
        \<and> addr root' \<noteq> 0
        \<and> children root' = Some [A', Node 2 ''b'' ''b.txt'' File None None]
        \<and> addr A' \<noteq> 1 \<and> nname A' = ''c.txt'')"
  using modifyTree_referential_stability
    [where ?n1.0 = "Node 2 ''b'' ''b.txt'' File None None"
       and ?logic1.0 = "handleRenameNode_logic ''a'' ''c.txt''" and ?h1.0 = 3
       and ?n2.0 = "Node 0 ''root'' ''my-project'' Folder
             (Some [Node 1 ''a'' ''a.txt'' File None None, Node 2 ''b'' ''b.txt'' File None None])
             (Some True)"
       and ?logic2.0 = "handleDeleteNode_logic ''zzz''" and ?h2.0 = 3
       and ar = 0 and ir = "''root''" and nr = "''my-project''" and tr = Folder
       and A = "Node 1 ''a'' ''a.txt'' File None None"
       and B = "Node 2 ''b'' ''b.txt'' File None None" and er = "Some True"
       and ?h3.0 = 3 and target = "''a''" and newName = "''c.txt''"]
  by (simp add: handleRenameNode_logic_def handleDeleteNode_logic_def ids_def someDiffers_def)

section \<open>Root protection (C4)\<close>






section \<open>Confirming a rename (C5)\<close>

text \<open>
  C5 as the specification states it fails: the input \<open>" b "\<close> trims to the non-empty
  \<open>"b"\<close>, and the name installed is \<open>" b "\<close> as typed, not its trimmed form.
\<close>

theorem handleConfirm_rename_trimmed_counterexample:
  "trim '' b '' = ''b'' \<and> '' b '' \<noteq> trim '' b '' \<and>
   handleConfirm (Node 1 ''a'' ''a.txt'' File None None) ''0'' ''0.5''
     \<lparr>isAdding = None, isRenaming = True, inputValue = '' b ''\<rparr>
     (Some (Node 0 ''root'' ''my-project'' Folder
              (Some [Node 1 ''a'' ''a.txt'' File None None]) (Some True))) 2
   = (\<lparr>isAdding = None, isRenaming = False, inputValue = []\<rparr>,
      Some (Node 3 ''root'' ''my-project'' Folder
              (Some [Node 2 ''a'' '' b '' File None None]) (Some True)), 4)"
  by (simp add: trim_def isWhiteSpace_def handleConfirm_def handleRenameNode_def updateTree_def
     handleRenameNode_logic_def someDiffers_def)

text \<open>
  C5, amended. When a rename is confirmed (the editor is renaming and not adding) on a
  tree allocated before the call: if the input trims to the empty string, no rule is
  issued and the tree stays the object it was; otherwise every node with the id of the
  edited node gets the input exactly as typed as its name, and nothing else changes.
  Either way the editor state is reset.
\<close>

theorem handleConfirm_rename:
  assumes "isAdding st = None" and "isRenaming st"
    and "\<forall>m\<in>set (nodes t). addr m < h"
  shows "(trim (inputValue st) = [] \<longrightarrow>
            handleConfirm node now rand st (Some t) h
              = (\<lparr>isAdding = None, isRenaming = False, inputValue = []\<rparr>, Some t, h))
       \<and> (trim (inputValue st) \<noteq> [] \<longrightarrow>
            (\<exists>t' h'. handleConfirm node now rand st (Some t) h
                 = (\<lparr>isAdding = None, isRenaming = False, inputValue = []\<rparr>, Some t', h')
               \<and> map view (nodes t') =
                  map (\<lambda>m. if nid m = nid node
                           then (nid m, inputValue st, ntype m, isExpanded m,
                                 map_option length (children m))
                           else view m) (nodes t)))"
  using rename_walk(1)[OF assms(3), of "nid node" "inputValue st"] assms(1,2)
  by (auto simp: handleConfirm_def handleRenameNode_def updateTree_def)

theorem handleConfirm_rename_witness:
  "handleConfirm (Node 1 ''a'' ''a.txt'' File None None) ''0'' ''0.5''
     \<lparr>isAdding = None, isRenaming = True, inputValue = ''  ''\<rparr>
     (Some (Node 0 ''root'' ''my-project'' Folder
              (Some [Node 1 ''a'' ''a.txt'' File None None]) (Some True))) 2
   = (\<lparr>isAdding = None, isRenaming = False, inputValue = []\<rparr>,
      Some (Node 0 ''root'' ''my-project'' Folder
              (Some [Node 1 ''a'' ''a.txt'' File None None]) (Some True)), 2)
   \<and> (\<exists>t' h'. handleConfirm (Node 1 ''a'' ''a.txt'' File None None) ''0'' ''0.5''
        \<lparr>isAdding = None, isRenaming = True, inputValue = ''b.txt''\<rparr>
        (Some (Node 0 ''root'' ''my-project'' Folder
                 (Some [Node 1 ''a'' ''a.txt'' File None None]) (Some True))) 2
        = (\<lparr>isAdding = None, isRenaming = False, inputValue = []\<rparr>, Some t', h')
      \<and> map view (nodes t') =
          [(''root'', ''my-project'', Folder, Some True, Some 1),
           (''a'', ''b.txt'', File, None, None)])"
  using
    handleConfirm_rename
      [of "\<lparr>isAdding = None, isRenaming = True, inputValue = ''  ''\<rparr>"
          "Node 0 ''root'' ''my-project'' Folder
              (Some [Node 1 ''a'' ''a.txt'' File None None]) (Some True)" 2
          "Node 1 ''a'' ''a.txt'' File None None" "''0''" "''0.5''"]
    handleConfirm_rename
      [of "\<lparr>isAdding = None, isRenaming = True, inputValue = ''b.txt''\<rparr>"
          "Node 0 ''root'' ''my-project'' Folder
              (Some [Node 1 ''a'' ''a.txt'' File None None]) (Some True)" 2
          "Node 1 ''a'' ''a.txt'' File None None" "''0''" "''0.5''"]
  by (simp add: trim_def isWhiteSpace_def view_def)

section \<open>The archive (C6, C7, C8)\<close>

text \<open>
  C6 as the specification states it fails: for the root \<open>proj\<close> with the folder \<open>src\<close>
  holding the file \<open>a.txt\<close>, the archive built has three entries, not two; the first
  call, \<open>zip.folder(rootNode.name)\<close>, makes the directory \<open>proj/\<close> an entry of its own.
\<close>

theorem createZipFromStructure_two_entries_counterexample:
  "length (populate (archiveWriter (\<lambda>z. Inr z :: unit + (string \<times> ZipObject) list))
     (Node 0 ''root'' ''proj'' Folder
        (Some [Node 1 ''s'' ''src'' Folder
                 (Some [Node 2 ''f'' ''a.txt'' File None None]) (Some True)]) (Some True)))
     \<noteq> 2
   \<and> set (populate (archiveWriter (\<lambda>z. Inr z :: unit + (string \<times> ZipObject) list))
     (Node 0 ''root'' ''proj'' Folder
        (Some [Node 1 ''s'' ''src'' Folder
                 (Some [Node 2 ''f'' ''a.txt'' File None None]) (Some True)]) (Some True)))
     \<noteq> {(''proj/src/'', Dir), (''proj/src/a.txt'', FileData [])}"
proof -
  have "populate (archiveWriter (\<lambda>z. Inr z :: unit + (string \<times> ZipObject) list))
     (Node 0 ''root'' ''proj'' Folder
        (Some [Node 1 ''s'' ''src'' Folder
                 (Some [Node 2 ''f'' ''a.txt'' File None None]) (Some True)]) (Some True))
     = [(''proj/'', Dir), (''proj/src/'', Dir), (''proj/src/a.txt'', FileData [])]"
    by (simp add: populate_def archiveWriter_def Let_def)
  moreover have "(''proj/'', Dir) \<notin> {(''proj/src/'', Dir), (''proj/src/a.txt'', FileData [])}"
    by simp
  ultimately show ?thesis by (metis length_Cons list.set_intros(1) list.size(3) numeral_2_eq_2 nat.inject n_not_Suc_n)
qed

text \<open>
  C6, amended. For a root named \<open>proj\<close> whose only child is a folder \<open>src\<close> whose only
  child is a file \<open>a.txt\<close>, whatever their ids, addresses and flags, the archive built
  has exactly three entries: the directories \<open>proj/\<close> and \<open>proj/src/\<close> and the file
  \<open>proj/src/a.txt\<close> with empty content; when generation succeeds it is offered for
  download as \<open>proj.zip\<close>.
\<close>

theorem createZipFromStructure_archive_shape:
  "populate (archiveWriter gen)
     (Node a0 i0 ''proj'' t0
        (Some [Node a1 i1 ''src'' Folder (Some [Node a2 i2 ''a.txt'' File ch2 e2]) e1]) e0)
   = [(''proj/'', Dir), (''proj/src/'', Dir), (''proj/src/a.txt'', FileData [])]
   \<and> createZipFromStructure (Some (archiveWriter Inr))
     (Node a0 i0 ''proj'' t0
        (Some [Node a1 i1 ''src'' Folder (Some [Node a2 i2 ''a.txt'' File ch2 e2]) e1]) e0)
   = ([Download ''proj.zip''
         [(''proj/'', Dir), (''proj/src/'', Dir), (''proj/src/a.txt'', FileData [])]],
      Inr ())"
  by (simp add: createZipFromStructure_def populate_def archiveWriter_def Let_def)

text \<open>
  C7 as the specification states it fails: when \<open>generateAsync\<close> rejects, the promise
  that \<open>createZipFromStructure\<close> returns is resolved, not rejected, so the caller
  \<open>handleDownload\<close> sees no failure and its own \<open>catch\<close> does not run.
\<close>

theorem createZipFromStructure_failure_counterexample:
  "zip_generateAsync (archiveWriter (\<lambda>z. Inl ''boom'' :: string + unit))
     (populate (archiveWriter (\<lambda>z. Inl ''boom'' :: string + unit))
        (Node 0 ''root'' ''proj'' Folder (Some []) (Some True))) = Inl ''boom''
   \<and> snd (createZipFromStructure (Some (archiveWriter (\<lambda>z. Inl ''boom'' :: string + unit)))
        (Node 0 ''root'' ''proj'' Folder (Some []) (Some True))) = Inr ()
   \<and> Alert ''Failed to create zip file.'' \<notin> set (handleDownload
        (Some (archiveWriter (\<lambda>z. Inl ''boom'' :: string + unit)))
        (Some (Node 0 ''root'' ''proj'' Folder (Some []) (Some True))))"
  by (simp add: createZipFromStructure_def handleDownload_def populate_def archiveWriter_def
       Let_def)

text \<open>
  C7, amended. Whenever \<open>generateAsync\<close> rejects, with any library and any tree, the
  builder itself logs the error and shows one alert, offers nothing for download, and
  its promise resolves: the caller is not told, and what the user sees of
  \<open>handleDownload\<close> is that one log entry and that one alert.
\<close>

theorem createZipFromStructure_failure:
  assumes "zip_generateAsync J (populate J t) = Inl err"
  shows "createZipFromStructure (Some J) t
           = ([ConsoleError ''Failed to generate zip file:'' err,
               Alert ''An error occurred while creating the zip file.''], Inr ())
       \<and> handleDownload (Some J) (Some t)
           = [ConsoleError ''Failed to generate zip file:'' err,
               Alert ''An error occurred while creating the zip file.'']"
  using assms by (simp add: createZipFromStructure_def handleDownload_def)

theorem createZipFromStructure_failure_witness:
  "zip_generateAsync (archiveWriter (\<lambda>z. Inl ''boom'' :: string + unit))
     (populate (archiveWriter (\<lambda>z. Inl ''boom'' :: string + unit))
        (Node 0 ''root'' ''proj'' Folder (Some []) (Some True))) = Inl ''boom''
   \<and> createZipFromStructure (Some (archiveWriter (\<lambda>z. Inl ''boom'' :: string + unit)))
        (Node 0 ''root'' ''proj'' Folder (Some []) (Some True))
      = ([ConsoleError ''Failed to generate zip file:'' ''boom'',
          Alert ''An error occurred while creating the zip file.''], Inr ())
   \<and> handleDownload (Some (archiveWriter (\<lambda>z. Inl ''boom'' :: string + unit)))
        (Some (Node 0 ''root'' ''proj'' Folder (Some []) (Some True)))
      = [ConsoleError ''Failed to generate zip file:'' ''boom'',
         Alert ''An error occurred while creating the zip file.'']"
proof -
  have g: "zip_generateAsync (archiveWriter (\<lambda>z. Inl ''boom'' :: string + unit))
     (populate (archiveWriter (\<lambda>z. Inl ''boom'' :: string + unit))
        (Node 0 ''root'' ''proj'' Folder (Some []) (Some True))) = Inl ''boom''"
    by (simp add: archiveWriter_def)
  show ?thesis using g createZipFromStructure_failure[OF g] by simp
qed

lemma skeleton_eq_Node:
  "skeleton (Node a i n t ch e) = skeleton (Node a' i' n' t' ch' e') \<longleftrightarrow>
     i = i' \<and> n = n' \<and> t = t' \<and>
     (case (ch, ch') of (None, None) \<Rightarrow> True
      | (Some cs, Some cs') \<Rightarrow> skeletonAll cs = skeletonAll cs'
      | _ \<Rightarrow> False)"
  by (cases ch; cases ch') auto

lemma skeleton_zip:
  "skeleton n = skeleton n' \<Longrightarrow> addNodeToZip J n f z = addNodeToZip J n' f z"
  "skeletonAll cs = skeletonAll cs' \<Longrightarrow>
     addChildrenToZip J cs f z = addChildrenToZip J cs' f z"
proof (induction J n f z and J cs f z arbitrary: n' and cs'
       rule: addNodeToZip_addChildrenToZip.induct)
  case (1 J a i n t ch e zipFolder z)
  obtain a' i' n'' t' ch' e' where n': "n' = Node a' i' n'' t' ch' e'" by (cases n')
  from "1.prems" have eqs: "i' = i" "n'' = n" "t' = t"
    unfolding n' skeleton_eq_Node by simp_all
  show ?case
  proof (cases "t = Folder")
    case False
    then show ?thesis unfolding n' eqs by simp
  next
    case True
    obtain newFolder z1 where f: "zip_folder J zipFolder n z = (newFolder, z1)"
      by (cases "zip_folder J zipFolder n z")
    show ?thesis
    proof (cases ch)
      case None
      then have "ch' = None"
        using "1.prems" unfolding n' skeleton_eq_Node by (cases ch') simp_all
      then show ?thesis unfolding n' eqs None using True f by simp
    next
      case (Some cs)
      then obtain cs' where ch': "ch' = Some cs'" "skeletonAll cs = skeletonAll cs'"
        using "1.prems" unfolding n' skeleton_eq_Node by (cases ch') simp_all
      from "1.IH"[OF True f[symmetric] Some ch'(2)] show ?thesis
        unfolding n' eqs Some ch'(1) using True f by simp
    qed
  qed
next
  case (2 J zipFolder z)
  then show ?case by (cases cs') simp_all
next
  case (3 J c cs zipFolder z)
  from "3.prems" obtain c' cs'' where
    cs': "cs' = c' # cs''" "skeleton c = skeleton c'" "skeletonAll cs = skeletonAll cs''"
    by (cases cs') simp_all
  show ?case unfolding cs'(1) using "3.IH"(1)[OF cs'(2)] "3.IH"(2)[OF cs'(3)] by simp
qed

lemma length_paths:
  "length (paths prefix n) = length (nodes n)"
  "length (pathsAll prefix cs) = length (nodesAll cs)"
proof (induction prefix n and prefix cs rule: paths_pathsAll.induct)
  case (1 prefix a i n t ch e)
  then show ?case by (cases ch) simp_all
next
  case (2 prefix)
  show ?case by simp
next
  case (3 prefix c cs)
  then show ?case by simp
qed

lemma writer_folder_keys:
  "zip_folder (archiveWriter gen) prefix n z = (f, z1) \<Longrightarrow>
     f = prefix @ n @ ''/'' \<and> fst ` set z1 = insert (prefix @ n @ ''/'') (fst ` set z)"
  by (auto simp: archiveWriter_def Let_def map_of_eq_None_iff split: if_splits)

lemma writer_file_keys:
  "fst ` set (zip_file (archiveWriter gen) prefix n d z) = insert (prefix @ n) (fst ` set z)"
  by (simp add: archiveWriter_def dom_update)

lemma addNodeToZip_keys:
  "(\<forall>m\<in>set (nodes n). ntype m = File \<longrightarrow> children m = None \<or> children m = Some []) \<Longrightarrow>
     fst ` set (addNodeToZip (archiveWriter gen) n prefix z) = fst ` set z \<union> set (paths prefix n)"
  "(\<forall>m\<in>set (nodesAll cs). ntype m = File \<longrightarrow> children m = None \<or> children m = Some []) \<Longrightarrow>
     fst ` set (addChildrenToZip (archiveWriter gen) cs prefix z) = fst ` set z \<union> set (pathsAll prefix cs)"
proof (induction "archiveWriter gen" n prefix z and "archiveWriter gen" cs prefix z
       rule: addNodeToZip_addChildrenToZip.induct)
  case pr: (1 a i n t ch e zipFolder z)
  show ?case
  proof (cases t)
    case File
    with pr.prems have "ch = None \<or> ch = Some []" by simp
    then show ?thesis using File by (auto simp: writer_file_keys)
  next
    case Folder
    obtain f z1 where fz: "zip_folder (archiveWriter gen) zipFolder n z = (f, z1)"
      by (cases "zip_folder (archiveWriter gen) zipFolder n z")
    from writer_folder_keys[OF fz] have f: "f = zipFolder @ n @ ''/''"
      and k: "fst ` set z1 = insert (zipFolder @ n @ ''/'') (fst ` set z)" by simp_all
    show ?thesis
    proof (cases ch)
      case None
      then show ?thesis using Folder fz k by simp
    next
      case (Some cs)
      from pr.prems Some
      have "\<forall>m\<in>set (nodesAll cs). ntype m = File \<longrightarrow> children m = None \<or> children m = Some []"
        by simp
      from pr.hyps[OF Folder fz[symmetric] Some this]
      have "fst ` set (addChildrenToZip (archiveWriter gen) cs f z1)
              = fst ` set z1 \<union> set (pathsAll f cs)" .
      then show ?thesis using Folder Some fz k f by auto
    qed
  qed
next
  case (2 zipFolder z)
  show ?case by simp
next
  case pr: (3 c cs zipFolder z)
  from pr.prems
  have pc: "\<forall>m\<in>set (nodes c). ntype m = File \<longrightarrow> children m = None \<or> children m = Some []"
    and pcs: "\<forall>m\<in>set (nodesAll cs). ntype m = File \<longrightarrow> children m = None \<or> children m = Some []"
    by simp_all
  show ?case using pr.hyps(1)[OF pc] pr.hyps(2)[OF pcs] by auto
qed

lemma populate_keys:
  assumes "\<forall>m\<in>set (nodes t). ntype m = File \<longrightarrow> children m = None \<or> children m = Some []"
  shows "fst ` set (populate (archiveWriter gen) t) = set (archivePaths t)"
proof -
  obtain a i n ty ch e where t: "t = Node a i n ty ch e" by (cases t)
  obtain f z1 where fz: "zip_folder (archiveWriter gen) [] n [] = (f, z1)"
    by (cases "zip_folder (archiveWriter gen) [] n []")
  from writer_folder_keys[OF fz] have f: "f = n @ ''/''"
    and k: "fst ` set z1 = {n @ ''/''}" by simp_all
  have new: "zip_new (archiveWriter gen) = ([], [])" by (simp add: archiveWriter_def)
  show ?thesis
  proof (cases ch)
    case None
    then show ?thesis using t fz k new by (simp add: populate_def archivePaths_def)
  next
    case (Some cs)
    from assms t Some
    have "\<forall>m\<in>set (nodesAll cs). ntype m = File \<longrightarrow> children m = None \<or> children m = Some []"
      by simp
    from addNodeToZip_keys(2)[OF this, of gen f z1]
    show ?thesis using t Some fz k f new by (simp add: populate_def archivePaths_def)
  qed
qed

text \<open>
  C8. The archive does not depend on the expansion state, and the builder visits every
  node whatever the flags.
  \<^item> Two trees that agree once their flags (and the addresses of their objects) are
    forgotten give, with any library, the same archive and the same outcome of
    \<open>createZipFromStructure\<close>, also when the library is missing.
  \<^item> For every tree in which file nodes have no children (an invariant of the data
    model), the paths of the entries of the archive built are exactly the paths of
    the nodes of the tree: every descendant, at any depth, below expanded and
    collapsed folders alike, has its entry, and there is no other entry.
  \<^item> \<open>archivePaths\<close> has one path for each node of the tree.
\<close>

theorem createZipFromStructure_ignores_isExpanded:
  fixes J :: "('h, 'z, 'e, 'b) JSZip" and lib :: "('h, 'z, 'e, 'b) JSZip option"
    and gen :: "(string \<times> ZipObject) list \<Rightarrow> 'x + 'y"
  shows "(skeleton t = skeleton t' \<longrightarrow>
            populate J t = populate J t'
            \<and> createZipFromStructure lib t = createZipFromStructure lib t')
       \<and> ((\<forall>m\<in>set (nodes u). ntype m = File \<longrightarrow> children m = None \<or> children m = Some [])
            \<longrightarrow> fst ` set (populate (archiveWriter gen) u) = set (archivePaths u))
       \<and> length (archivePaths u) = length (nodes u)"
proof (intro conjI impI)
  assume s: "skeleton t = skeleton t'"
  obtain a i n ty ch e where t: "t = Node a i n ty ch e" by (cases t)
  obtain a' i' n' ty' ch' e' where t': "t' = Node a' i' n' ty' ch' e'" by (cases t')
  have nm: "nname t = nname t'" using s t t' by simp
  have pop: "populate K t = populate K t'" for K :: "('h, 'z, 'e, 'b) JSZip"
  proof (cases ch)
    case None
    then show ?thesis using s t t' by (cases ch') (simp_all add: populate_def)
  next
    case (Some cs)
    then obtain cs' where "ch' = Some cs'" "skeletonAll cs = skeletonAll cs'"
      using s t t' by (cases ch') simp_all
    then show ?thesis using s t t' Some skeleton_zip(2)[of cs cs' K]
      by (simp add: populate_def split: prod.splits)
  qed
  show "populate J t = populate J t'" by (rule pop)
  show "createZipFromStructure lib t = createZipFromStructure lib t'" using pop nm
    by (simp add: createZipFromStructure_def split: option.splits sum.splits)
next
  assume "\<forall>m\<in>set (nodes u). ntype m = File \<longrightarrow> children m = None \<or> children m = Some []"
  then show "fst ` set (populate (archiveWriter gen) u) = set (archivePaths u)"
    by (rule populate_keys)
next
  show "length (archivePaths u) = length (nodes u)"
    by (cases u) (simp add: archivePaths_def length_paths(2) split: option.splits)
qed

theorem createZipFromStructure_ignores_isExpanded_witness:
  "populate (archiveWriter (Inr :: _ \<Rightarrow> unit + (string \<times> ZipObject) list))
     (Node 0 ''root'' ''proj'' Folder
        (Some [Node 1 ''s'' ''src'' Folder
                 (Some [Node 2 ''f'' ''a.txt'' File None None]) (Some False)]) (Some True))
   = populate (archiveWriter (Inr :: _ \<Rightarrow> unit + (string \<times> ZipObject) list))
     (Node 5 ''root'' ''proj'' Folder
        (Some [Node 4 ''s'' ''src'' Folder
                 (Some [Node 2 ''f'' ''a.txt'' File None None]) (Some True)]) None)
   \<and> createZipFromStructure (Some (archiveWriter (Inr :: _ \<Rightarrow> unit + (string \<times> ZipObject) list)))
     (Node 0 ''root'' ''proj'' Folder
        (Some [Node 1 ''s'' ''src'' Folder
                 (Some [Node 2 ''f'' ''a.txt'' File None None]) (Some False)]) (Some True))
   = createZipFromStructure (Some (archiveWriter (Inr :: _ \<Rightarrow> unit + (string \<times> ZipObject) list)))
     (Node 5 ''root'' ''proj'' Folder
        (Some [Node 4 ''s'' ''src'' Folder
                 (Some [Node 2 ''f'' ''a.txt'' File None None]) (Some True)]) None)
   \<and> fst ` set (populate (archiveWriter (Inr :: _ \<Rightarrow> unit + (string \<times> ZipObject) list))
     (Node 0 ''root'' ''proj'' Folder
        (Some [Node 1 ''s'' ''src'' Folder
                 (Some [Node 2 ''f'' ''a.txt'' File None None]) (Some False)]) (Some True)))
     = set [''proj/'', ''proj/src/'', ''proj/src/a.txt'']"
proof -
  let ?W = "archiveWriter (Inr :: _ \<Rightarrow> unit + (string \<times> ZipObject) list)"
  let ?T = "Node 0 ''root'' ''proj'' Folder
        (Some [Node 1 ''s'' ''src'' Folder
                 (Some [Node 2 ''f'' ''a.txt'' File None None]) (Some False)]) (Some True)"
  let ?T' = "Node 5 ''root'' ''proj'' Folder
        (Some [Node 4 ''s'' ''src'' Folder
                 (Some [Node 2 ''f'' ''a.txt'' File None None]) (Some True)]) None"
  have s: "skeleton ?T = skeleton ?T'" by simp
  have f: "\<forall>m\<in>set (nodes ?T). ntype m = File \<longrightarrow> children m = None \<or> children m = Some []"
    by simp
  note th = createZipFromStructure_ignores_isExpanded
    [of ?T ?T' ?W "Some ?W" ?T "Inr :: _ \<Rightarrow> unit + (string \<times> ZipObject) list"]
  have 1: "populate ?W ?T = populate ?W ?T'"
    and 2: "createZipFromStructure (Some ?W) ?T = createZipFromStructure (Some ?W) ?T'"
    using th[THEN conjunct1] s by simp_all
  have "fst ` set (populate ?W ?T) = set (archivePaths ?T)"
    using th[THEN conjunct2, THEN conjunct1] f by simp
  moreover have "archivePaths ?T = [''proj/'', ''proj/src/'', ''proj/src/a.txt'']"
    by (simp add: archivePaths_def)
  ultimately have 3: "fst ` set (populate ?W ?T) = set [''proj/'', ''proj/src/'', ''proj/src/a.txt'']"
    by simp
  show ?thesis by (intro conjI 1 2 3)
qed

section \<open>Toggling a folder without a flag (C10)\<close>

lemma toggle_shape:
  "handleToggleExpand_logic t node k =
     (if nid node = t \<and> ntype node = Folder
      then (Some (Node k (nid node) (nname node) (ntype node) (children node)
                    ((\<lambda>m. Some (isExpanded m \<noteq> Some True)) node)), Suc k)
      else (Some node, k))"
  by (simp add: handleToggleExpand_logic_def)

lemmas toggle_walk =
  relabel_walk[where L="handleToggleExpand_logic t"
    and P="\<lambda>m. nid m = t \<and> ntype m = Folder"
    and fn=nname and fe="\<lambda>m. Some (isExpanded m \<noteq> Some True)" for t,
    OF toggle_shape, simplified]

lemma toggle_once:
  assumes old: "\<forall>m\<in>set (nodes t). addr m < h"
  shows "\<exists>t' h'. handleToggleExpand target (Some t) h = (Some t', h') \<and> h \<le> h'
     \<and> (\<forall>m\<in>set (nodes t'). addr m < h')
     \<and> map view (nodes t') =
        map (\<lambda>m. if nid m = target \<and> ntype m = Folder
                 then (nid m, nname m, ntype m, Some (isExpanded m \<noteq> Some True),
                       map_option length (children m))
                 else view m) (nodes t)"
  using toggle_walk(1)[OF old, of target]
  by (auto simp: handleToggleExpand_def updateTree_def)

text \<open>
  C10. In a tree allocated before the call, let the node at position \<open>i\<close> of the
  pre-order be a folder with the target id and no \<open>isExpanded\<close> flag. The first toggle
  by that id installs a tree of the same shape whose node at position \<open>i\<close> has the flag
  \<open>true\<close>; a second toggle installs one where it has the flag \<open>false\<close>: the flag is not
  absent again.
\<close>

theorem handleToggleExpand_unflagged:
  assumes old: "\<forall>m\<in>set (nodes t). addr m < h"
    and i: "i < length (nodes t)"
    and D: "nid (nodes t ! i) = target" "ntype (nodes t ! i) = Folder"
      "isExpanded (nodes t ! i) = None"
  shows "\<exists>t1 h1 t2 h2. handleToggleExpand target (Some t) h = (Some t1, h1)
     \<and> length (nodes t1) = length (nodes t)
     \<and> nid (nodes t1 ! i) = target \<and> isExpanded (nodes t1 ! i) = Some True
     \<and> handleToggleExpand target (Some t1) h1 = (Some t2, h2)
     \<and> length (nodes t2) = length (nodes t)
     \<and> nid (nodes t2 ! i) = target \<and> isExpanded (nodes t2 ! i) = Some False"
proof -
  let ?upd = "\<lambda>m. if nid m = target \<and> ntype m = Folder
                 then (nid m, nname m, ntype m, Some (isExpanded m \<noteq> Some True),
                       map_option length (children m))
                 else view m"
  from toggle_once[OF old, of target] obtain t1 h1 where
    1: "handleToggleExpand target (Some t) h = (Some t1, h1)"
       "\<forall>m\<in>set (nodes t1). addr m < h1"
       "map view (nodes t1) = map ?upd (nodes t)" by blast
  from toggle_once[OF 1(2), of target] obtain t2 h2 where
    2: "handleToggleExpand target (Some t1) h1 = (Some t2, h2)"
       "map view (nodes t2) = map ?upd (nodes t1)" by blast
  have l1: "length (nodes t1) = length (nodes t)"
    using arg_cong[OF 1(3), of length] by simp
  have l2: "length (nodes t2) = length (nodes t)"
    using arg_cong[OF 2(2), of length] l1 by simp
  have "map view (nodes t1) ! i = map ?upd (nodes t) ! i" using 1(3) by simp
  then have "view (nodes t1 ! i) = ?upd (nodes t ! i)" using i l1 by simp
  then have "view (nodes t1 ! i) = (target, nname (nodes t ! i), Folder, Some True,
                                     map_option length (children (nodes t ! i)))"
    using D by simp
  then have w1: "nid (nodes t1 ! i) = target" "ntype (nodes t1 ! i) = Folder"
      "isExpanded (nodes t1 ! i) = Some True"
    by (simp_all add: view_def)
  have "map view (nodes t2) ! i = map ?upd (nodes t1) ! i" using 2(2) by simp
  then have "view (nodes t2 ! i) = ?upd (nodes t1 ! i)" using i l1 l2 by simp
  then have "view (nodes t2 ! i) = (target, nname (nodes t1 ! i), Folder, Some False,
                                     map_option length (children (nodes t1 ! i)))"
    using w1 by simp
  then have w2: "nid (nodes t2 ! i) = target" "isExpanded (nodes t2 ! i) = Some False"
    by (simp_all add: view_def)
  show ?thesis using 1(1) 2(1) l1 l2 w1 w2 by simp
qed

theorem handleToggleExpand_unflagged_witness:
  "\<exists>t1 h1 t2 h2.
     handleToggleExpand ''d''
       (Some (Node 0 ''root'' ''my-project'' Folder
                (Some [Node 1 ''d'' ''docs'' Folder (Some []) None]) (Some True))) 2
       = (Some t1, h1)
     \<and> length (nodes t1) = 2
     \<and> nid (nodes t1 ! 1) = ''d'' \<and> isExpanded (nodes t1 ! 1) = Some True
     \<and> handleToggleExpand ''d'' (Some t1) h1 = (Some t2, h2)
     \<and> length (nodes t2) = 2
     \<and> nid (nodes t2 ! 1) = ''d'' \<and> isExpanded (nodes t2 ! 1) = Some False"
  using handleToggleExpand_unflagged
    [of "Node 0 ''root'' ''my-project'' Folder
                (Some [Node 1 ''d'' ''docs'' Folder (Some []) None]) (Some True)" 2 1 "''d''"]
  by (simp add: numeral_2_eq_2)

section \<open>Bulk expand and collapse (C9)\<close>

lemma recursiveSet_walk:
  "(\<forall>m\<in>set (nodes n). ntype m = File \<longrightarrow> children m = None \<or> children m = Some []) \<Longrightarrow>
     \<exists>n' h'. recursiveSet v n h = (n', h')
       \<and> map view (nodes n') =
           map (\<lambda>m. if ntype m = Folder
                    then (nid m, nname m, ntype m, Some v, map_option length (children m))
                    else view m) (nodes n)
       \<and> (\<forall>m\<in>set (nodes n'). ntype m = Folder \<longrightarrow> isExpanded m = Some v)
       \<and> (\<forall>m\<in>set (nodes n'). ntype m = File \<longrightarrow> children m = None \<or> children m = Some [])"
  "(\<forall>m\<in>set (nodesAll cs). ntype m = File \<longrightarrow> children m = None \<or> children m = Some []) \<Longrightarrow>
     \<exists>cs' h'. recursiveSetAll v cs h = (cs', h') \<and> length cs' = length cs
       \<and> map view (nodesAll cs') =
           map (\<lambda>m. if ntype m = Folder
                    then (nid m, nname m, ntype m, Some v, map_option length (children m))
                    else view m) (nodesAll cs)
       \<and> (\<forall>m\<in>set (nodesAll cs'). ntype m = Folder \<longrightarrow> isExpanded m = Some v)
       \<and> (\<forall>m\<in>set (nodesAll cs'). ntype m = File \<longrightarrow> children m = None \<or> children m = Some [])"
proof (induction v n h and v cs h rule: recursiveSet_recursiveSetAll.induct)
  case pr: (1 v a i n t ch e h)
  show ?case
  proof (cases t)
    case File
    with pr.prems have "ch = None \<or> ch = Some []" by simp
    then show ?thesis using File by (auto simp: view_Node)
  next
    case Folder
    show ?thesis
    proof (cases ch)
      case None
      then show ?thesis using Folder by (simp add: view_Node)
    next
      case (Some cs)
      from pr.prems Some
      have "\<forall>m\<in>set (nodesAll cs). ntype m = File \<longrightarrow> children m = None \<or> children m = Some []"
        by simp
      from pr.IH[OF Folder Some this] obtain cs' h' where
        c: "recursiveSetAll v cs (Suc h) = (cs', h')" "length cs' = length cs"
          "map view (nodesAll cs') =
           map (\<lambda>m. if ntype m = Folder
                    then (nid m, nname m, ntype m, Some v, map_option length (children m))
                    else view m) (nodesAll cs)"
          "\<forall>m\<in>set (nodesAll cs'). ntype m = Folder \<longrightarrow> isExpanded m = Some v"
          "\<forall>m\<in>set (nodesAll cs'). ntype m = File \<longrightarrow> children m = None \<or> children m = Some []"
        by blast
      show ?thesis using Folder Some c by (simp add: view_Node)
    qed
  qed
next
  case (2 v h)
  show ?case by simp
next
  case pr: (3 v c cs h)
  from pr.prems
  have pc: "\<forall>m\<in>set (nodes c). ntype m = File \<longrightarrow> children m = None \<or> children m = Some []"
    and pcs: "\<forall>m\<in>set (nodesAll cs). ntype m = File \<longrightarrow> children m = None \<or> children m = Some []"
    by simp_all
  from pr.IH(1)[OF pc] obtain c' h1 where
    c: "recursiveSet v c h = (c', h1)"
       "map view (nodes c') =
           map (\<lambda>m. if ntype m = Folder
                    then (nid m, nname m, ntype m, Some v, map_option length (children m))
                    else view m) (nodes c)"
       "\<forall>m\<in>set (nodes c'). ntype m = Folder \<longrightarrow> isExpanded m = Some v"
       "\<forall>m\<in>set (nodes c'). ntype m = File \<longrightarrow> children m = None \<or> children m = Some []"
    by blast
  from pr.IH(2)[OF c(1)[symmetric] pcs] obtain cs' h2 where
    cs: "recursiveSetAll v cs h1 = (cs', h2)" "length cs' = length cs"
          "map view (nodesAll cs') =
           map (\<lambda>m. if ntype m = Folder
                    then (nid m, nname m, ntype m, Some v, map_option length (children m))
                    else view m) (nodesAll cs)"
          "\<forall>m\<in>set (nodesAll cs'). ntype m = Folder \<longrightarrow> isExpanded m = Some v"
          "\<forall>m\<in>set (nodesAll cs'). ntype m = File \<longrightarrow> children m = None \<or> children m = Some []"
    by blast
  show ?case using c cs by auto
qed

text \<open>
  C9. For every tree in which file nodes have no children (an invariant of the data
  model) and every boolean \<open>v\<close>, \<open>setAllExpanded\<close> installs a tree whose pre-order
  list of views is that of the old tree with the flag of every folder set to \<open>v\<close>: ids,
  names, types and numbers of children are unchanged, and so is the whole view of
  every file node. Every folder node of the new tree has the flag \<open>v\<close>. In
  particular, collapsing everything and then expanding everything gives a tree where
  every folder has the flag \<open>true\<close> and every file node shows what it showed at first.
\<close>

theorem setAllExpanded_sets_every_folder:
  assumes H: "\<forall>m\<in>set (nodes t). ntype m = File \<longrightarrow> children m = None \<or> children m = Some []"
  shows "\<exists>t1 h1 tf hf tt ht.
     setAllExpanded v (Some t) h = (Some t1, h1)
     \<and> map view (nodes t1) =
           map (\<lambda>m. if ntype m = Folder
                    then (nid m, nname m, ntype m, Some v, map_option length (children m))
                    else view m) (nodes t)
     \<and> (\<forall>m\<in>set (nodes t1). ntype m = Folder \<longrightarrow> isExpanded m = Some v)
     \<and> setAllExpanded False (Some t) h = (Some tf, hf)
     \<and> setAllExpanded True (Some tf) hf = (Some tt, ht)
     \<and> map view (nodes tt) =
           map (\<lambda>m. if ntype m = Folder
                    then (nid m, nname m, ntype m, Some True, map_option length (children m))
                    else view m) (nodes t)
     \<and> (\<forall>m\<in>set (nodes tt). ntype m = Folder \<longrightarrow> isExpanded m = Some True)"
proof -
  from recursiveSet_walk(1)[OF H, of v h] obtain t1 h1 where
    1: "recursiveSet v t h = (t1, h1)"
       "map view (nodes t1) =
           map (\<lambda>m. if ntype m = Folder
                    then (nid m, nname m, ntype m, Some v, map_option length (children m))
                    else view m) (nodes t)"
       "\<forall>m\<in>set (nodes t1). ntype m = Folder \<longrightarrow> isExpanded m = Some v"
    by blast
  from recursiveSet_walk(1)[OF H, of False h] obtain tf hf where
    f: "recursiveSet False t h = (tf, hf)"
       "map view (nodes tf) =
           map (\<lambda>m. if ntype m = Folder
                    then (nid m, nname m, ntype m, Some False, map_option length (children m))
                    else view m) (nodes t)"
       "\<forall>m\<in>set (nodes tf). ntype m = File \<longrightarrow> children m = None \<or> children m = Some []"
    by blast
  from recursiveSet_walk(1)[OF f(3), of True hf] obtain tt ht where
    t: "recursiveSet True tf hf = (tt, ht)"
       "map view (nodes tt) =
           map (\<lambda>m. if ntype m = Folder
                    then (nid m, nname m, ntype m, Some True, map_option length (children m))
                    else view m) (nodes tf)"
       "\<forall>m\<in>set (nodes tt). ntype m = Folder \<longrightarrow> isExpanded m = Some True"
    by blast
  let ?g = "\<lambda>x :: string \<times> string \<times> NodeType \<times> bool option \<times> nat option.
      case x of (i, n, ty, e, c) \<Rightarrow> if ty = Folder then (i, n, ty, Some True, c) else x"
  have "map view (nodes tt) = map ?g (map view (nodes tf))"
    unfolding t(2) by (simp add: view_def)
  also have "\<dots> = map (\<lambda>m. if ntype m = Folder
                    then (nid m, nname m, ntype m, Some True, map_option length (children m))
                    else view m) (nodes t)"
    unfolding f(2) by (simp add: view_def)
  finally have tt: "map view (nodes tt) = map (\<lambda>m. if ntype m = Folder
                    then (nid m, nname m, ntype m, Some True, map_option length (children m))
                    else view m) (nodes t)" .
  show ?thesis using 1 f(1) t(1,3) tt by (simp add: setAllExpanded_def)
qed

theorem setAllExpanded_sets_every_folder_witness:
  "\<exists>t1 h1 tf hf tt ht.
     setAllExpanded False
       (Some (Node 0 ''root'' ''my-project'' Folder
                (Some [Node 1 ''d'' ''docs'' Folder (Some []) None,
                       Node 2 ''f'' ''a.txt'' File None None]) (Some True))) 3
       = (Some t1, h1)
     \<and> map view (nodes t1) =
          [(''root'', ''my-project'', Folder, Some False, Some 2),
           (''d'', ''docs'', Folder, Some False, Some 0),
           (''f'', ''a.txt'', File, None, None)]
     \<and> (\<forall>m\<in>set (nodes t1). ntype m = Folder \<longrightarrow> isExpanded m = Some False)
     \<and> setAllExpanded False
       (Some (Node 0 ''root'' ''my-project'' Folder
                (Some [Node 1 ''d'' ''docs'' Folder (Some []) None,
                       Node 2 ''f'' ''a.txt'' File None None]) (Some True))) 3
       = (Some tf, hf)
     \<and> setAllExpanded True (Some tf) hf = (Some tt, ht)
     \<and> map view (nodes tt) =
          [(''root'', ''my-project'', Folder, Some True, Some 2),
           (''d'', ''docs'', Folder, Some True, Some 0),
           (''f'', ''a.txt'', File, None, None)]
     \<and> (\<forall>m\<in>set (nodes tt). ntype m = Folder \<longrightarrow> isExpanded m = Some True)"
  using setAllExpanded_sets_every_folder
    [of "Node 0 ''root'' ''my-project'' Folder
                (Some [Node 1 ''d'' ''docs'' Folder (Some []) None,
                       Node 2 ''f'' ''a.txt'' File None None]) (Some True)" False 3]
  by (simp add: view_def numeral_2_eq_2)

section \<open>Deleting a subtree (C2)\<close>

lemma links_Node: "links (Node a i n t ch e) = (i, n, t, e, map_option (map nid) ch)"
  by (simp add: links_def)

lemma delete_walk:
  "(\<forall>m\<in>set (nodes n). addr m < h) \<Longrightarrow>
     \<exists>r h'. modifyTree (handleDeleteNode_logic target) n h = (r, h') \<and> h \<le> h'
       \<and> (case r of None \<Rightarrow> nid n = target
           | Some n' \<Rightarrow> nid n \<noteq> target \<and> nid n' = nid n \<and> (n' = n \<or> h \<le> addr n')
               \<and> (\<forall>m\<in>set (nodes n'). addr m < h'))
       \<and> map links (case r of None \<Rightarrow> [] | Some n' \<Rightarrow> nodes n') = map (unlink target) (kept target n)"
  "(\<forall>m\<in>set (nodesAll cs). addr m < h) \<Longrightarrow>
     \<exists>cs' h'. modifyChildren (handleDeleteNode_logic target) cs h = (cs', h') \<and> h \<le> h'
       \<and> map nid cs' = filter (\<lambda>i. i \<noteq> target) (map nid cs)
       \<and> length cs' \<le> length cs
       \<and> (length cs' = length cs \<longrightarrow> list_all2 (\<lambda>c' c. c' = c \<or> h \<le> addr c') cs' cs)
       \<and> (\<forall>m\<in>set (nodesAll cs'). addr m < h')
       \<and> map links (nodesAll cs') = map (unlink target) (keptAll target cs)"
proof (induction "handleDeleteNode_logic target" n h and "handleDeleteNode_logic target" cs h
       rule: modifyTree_modifyChildren.induct)
  case (1 a i n t e h)
  then show ?case by (simp add: handleDeleteNode_logic_def links_Node)
next
  case pr: (2 a i n t cs e h)
  let ?D = "handleDeleteNode_logic target"
  from pr.prems have old: "\<forall>m\<in>set (nodesAll cs). addr m < h" and olda: "a < h" by simp_all
  from pr.hyps[OF old] obtain cs' h1 where
    c: "modifyChildren ?D cs h = (cs', h1)" "h \<le> h1"
       "map nid cs' = filter (\<lambda>i. i \<noteq> target) (map nid cs)"
       "length cs' \<le> length cs"
       "length cs' = length cs \<longrightarrow> list_all2 (\<lambda>c' c. c' = c \<or> h \<le> addr c') cs' cs"
       "\<forall>m\<in>set (nodesAll cs'). addr m < h1"
       "map links (nodesAll cs') = map (unlink target) (keptAll target cs)"
    by blast
  let ?old = "Node a i n t (Some cs) e" and ?new = "Node h1 i n t (Some cs') e"
  have mt: "modifyTree ?D ?old h =
      (if length cs' \<noteq> length cs \<or> someDiffers cs' cs then ?D ?new (Suc h1) else ?D ?old h1)"
    using c(1) by simp
  show ?case
  proof (cases "length cs' \<noteq> length cs \<or> someDiffers cs' cs")
    case True
    show ?thesis unfolding mt using True c(2,3,6,7)
      by (auto simp add: handleDeleteNode_logic_def links_Node less_Suc_eq)
  next
    case False
    then have "list_all2 (\<lambda>c' c. c' = c \<or> h \<le> addr c') cs' cs" using c(5) by simp
    from unchanged_children[OF _ this old] False have eq: "cs' = cs" by simp
    show ?thesis unfolding mt using False c(2,3,6,7) olda eq
      by (auto simp add: handleDeleteNode_logic_def links_Node)
  qed
next
  case 3
  then show ?case by simp
next
  case pr: (4 c cs h)
  let ?D = "handleDeleteNode_logic target"
  from pr.prems have oldc: "\<forall>m\<in>set (nodes c). addr m < h" by simp
  from pr.hyps(1)[OF oldc] obtain r h1 where
    c: "modifyTree ?D c h = (r, h1)" "h \<le> h1"
       "case r of None \<Rightarrow> nid c = target
           | Some n' \<Rightarrow> nid c \<noteq> target \<and> nid n' = nid c \<and> (n' = c \<or> h \<le> addr n')
               \<and> (\<forall>m\<in>set (nodes n'). addr m < h1)"
       "map links (case r of None \<Rightarrow> [] | Some n' \<Rightarrow> nodes n') = map (unlink target) (kept target c)"
    by blast
  from pr.prems have "\<forall>m\<in>set (nodesAll cs). addr m < h" by simp
  then have oldcs: "\<forall>m\<in>set (nodesAll cs). addr m < h1"
    using c(2) by (meson less_le_trans)
  from pr.hyps(2)[OF c(1)[symmetric] oldcs] obtain cs' h2 where
    cs: "modifyChildren ?D cs h1 = (cs', h2)" "h1 \<le> h2"
       "map nid cs' = filter (\<lambda>i. i \<noteq> target) (map nid cs)"
       "length cs' \<le> length cs"
       "length cs' = length cs \<longrightarrow> list_all2 (\<lambda>c' c. c' = c \<or> h1 \<le> addr c') cs' cs"
       "\<forall>m\<in>set (nodesAll cs'). addr m < h2"
       "map links (nodesAll cs') = map (unlink target) (keptAll target cs)"
    by blast
  show ?case
  proof (cases r)
    case None
    then show ?thesis using c cs by simp
  next
    case (Some c')
    have mono: "list_all2 (\<lambda>c' c. c' = c \<or> h \<le> addr c') cs' cs"
      if "list_all2 (\<lambda>c' c. c' = c \<or> h1 \<le> addr c') cs' cs"
      using that c(2) by (auto elim!: list_all2_mono)
    have "\<forall>m\<in>set (nodes c'). addr m < h2" using c(3) cs(2) Some by auto
    then show ?thesis using Some c cs mono by auto
  qed
qed

lemma subtree_nodes:
  "X \<in> set (nodes n) \<Longrightarrow> set (nodes X) \<subseteq> set (nodes n)"
  "X \<in> set (nodesAll cs) \<Longrightarrow> set (nodes X) \<subseteq> set (nodesAll cs)"
proof (induction n and cs rule: nodes_nodesAll.induct)
  case (1 a i n t ch e)
  then show ?case by (cases ch) auto
next
  case 2
  then show ?case by simp
next
  case (3 c cs)
  then show ?case by auto
qed

lemma kept_none:
  "target \<notin> nid ` set (nodes n) \<Longrightarrow> kept target n = nodes n"
  "target \<notin> nid ` set (nodesAll cs) \<Longrightarrow> keptAll target cs = nodesAll cs"
proof (induction n and cs rule: nodes_nodesAll.induct)
  case (1 a i n t ch e)
  then show ?case by (cases ch) auto
next
  case 2
  then show ?case by simp
next
  case (3 c cs)
  then show ?case by (simp add: image_Un)
qed

lemma filter_all: "(\<And>x. x \<in> set xs \<Longrightarrow> P x) \<Longrightarrow> filter P xs = xs"
  by (induction xs) auto

lemma filter_none: "(\<And>x. x \<in> set xs \<Longrightarrow> \<not> P x) \<Longrightarrow> filter P xs = []"
  by (induction xs) auto

lemma kept_distinct:
  "distinct (map nid (nodes n)) \<Longrightarrow> X \<in> set (nodes n) \<Longrightarrow>
     kept (nid X) n = filter (\<lambda>m. nid m \<notin> nid ` set (nodes X)) (nodes n)
     \<and> length (kept (nid X) n) + length (nodes X) = length (nodes n)"
  "distinct (map nid (nodesAll cs)) \<Longrightarrow> X \<in> set (nodesAll cs) \<Longrightarrow>
     keptAll (nid X) cs = filter (\<lambda>m. nid m \<notin> nid ` set (nodes X)) (nodesAll cs)
     \<and> length (keptAll (nid X) cs) + length (nodes X) = length (nodesAll cs)"
proof (induction n and cs rule: nodes_nodesAll.induct)
  case pr: (1 a i n t ch e)
  let ?n = "Node a i n t ch e"
  show ?case
  proof (cases "X = ?n")
    case True
    have "filter (\<lambda>m. nid m \<notin> nid ` set (nodes ?n)) (nodes ?n) = []"
      by (rule filter_none) blast
    then show ?thesis using True by simp
  next
    case False
    with pr.prems(2) obtain cs where ch: "ch = Some cs" and X: "X \<in> set (nodesAll cs)"
      by (cases ch) auto
    from pr.prems(1) ch have d: "distinct (map nid (nodesAll cs))"
      and i: "i \<notin> nid ` set (nodesAll cs)" by auto
    have "nid X \<noteq> i" using X i by blast
    moreover have "i \<notin> nid ` set (nodes X)" using subtree_nodes(2)[OF X] i by blast
    moreover note pr.IH[OF ch d X, THEN conjunct1] pr.IH[OF ch d X, THEN conjunct2]
    ultimately show ?thesis using ch by simp
  qed
next
  case 2
  then show ?case by simp
next
  case pr: (3 c cs)
  from pr.prems(1) have dc: "distinct (map nid (nodes c))"
    and dcs: "distinct (map nid (nodesAll cs))"
    and disj: "nid ` set (nodes c) \<inter> nid ` set (nodesAll cs) = {}" by auto
  show ?case
  proof (cases "X \<in> set (nodes c)")
    case True
    have sub: "nid ` set (nodes X) \<subseteq> nid ` set (nodes c)" using subtree_nodes(1)[OF True] by blast
    have "nid X \<in> nid ` set (nodes c)" using True by blast
    then have "nid X \<notin> nid ` set (nodesAll cs)" using disj by blast
    then have k: "keptAll (nid X) cs = nodesAll cs" by (rule kept_none(2))
    have f: "filter (\<lambda>m. nid m \<notin> nid ` set (nodes X)) (nodesAll cs) = nodesAll cs"
      by (rule filter_all) (use sub disj in blast)
    show ?thesis
      using pr.IH(1)[OF dc True, THEN conjunct1] pr.IH(1)[OF dc True, THEN conjunct2] k f
      by simp
  next
    case False
    with pr.prems(2) have X: "X \<in> set (nodesAll cs)" by simp
    have sub: "nid ` set (nodes X) \<subseteq> nid ` set (nodesAll cs)" using subtree_nodes(2)[OF X] by blast
    have "nid X \<in> nid ` set (nodesAll cs)" using X by blast
    then have "nid X \<notin> nid ` set (nodes c)" using disj by blast
    then have k: "kept (nid X) c = nodes c" by (rule kept_none(1))
    have f: "filter (\<lambda>m. nid m \<notin> nid ` set (nodes X)) (nodes c) = nodes c"
      by (rule filter_all) (use sub disj in blast)
    show ?thesis
      using pr.IH(2)[OF dcs X, THEN conjunct1] pr.IH(2)[OF dcs X, THEN conjunct2] k f
      by simp
  qed
qed

text \<open>
  C2. Take a tree allocated before the call whose ids are unique and whose root carries
  the sentinel id (the invariants of the data model), and a node \<open>X\<close> of it other than
  the root. Deleting by the id of \<open>X\<close> installs a tree such that
  \<^item> its number of nodes plus the number of nodes of the subtree of \<open>X\<close> (\<open>X\<close> and its
    \<open>N\<close> descendants) is the old number of nodes;
  \<^item> its ids are the old ids without those of the subtree of \<open>X\<close>: every node of the
    subtree is gone and every other id is still there, in the old pre-order;
  \<^item> its nodes are, in pre-order, the old nodes outside the subtree, each with the
    id, name, type and flag it had and with its old list of children, in the old
    order, the id of \<open>X\<close> struck out.
\<close>

theorem handleDeleteNode_removes_subtree:
  assumes old: "\<forall>m\<in>set (nodes root). addr m < h"
    and uniq: "distinct (ids root)"
    and sentinel: "nid root = ''root''"
    and X: "X \<in> set (nodes root)" and nonroot: "X \<noteq> root"
  shows "\<exists>root' h'. handleDeleteNode (nid X) (Some root) h = (Some root', h')
     \<and> length (nodes root') + length (nodes X) = length (nodes root)
     \<and> set (ids root') = set (ids root) - set (ids X)
     \<and> ids root' = filter (\<lambda>i. i \<notin> set (ids X)) (ids root)
     \<and> map links (nodes root') =
         map (unlink (nid X)) (filter (\<lambda>m. nid m \<notin> set (ids X)) (nodes root))"
proof -
  have d: "distinct (map nid (nodes root))" using uniq by (simp add: ids_def)
  have "root \<in> set (nodes root)" by (rule self_in_nodes)
  with X nonroot d have ne: "nid X \<noteq> nid root"
    by (metis distinct_map inj_on_def)
  then have guard: "nid X \<noteq> ''root''" using sentinel by simp
  from delete_walk(1)[OF old, of "nid X"] obtain r h' where
    w: "modifyTree (handleDeleteNode_logic (nid X)) root h = (r, h')"
       "case r of None \<Rightarrow> nid root = nid X | Some n' \<Rightarrow> nid root \<noteq> nid X"
       "map links (case r of None \<Rightarrow> [] | Some n' \<Rightarrow> nodes n') = map (unlink (nid X)) (kept (nid X) root)"
    by (auto split: option.splits)
  from w(2) ne obtain root' where r: "r = Some root'" by (cases r) auto
  have k: "kept (nid X) root = filter (\<lambda>m. nid m \<notin> set (ids X)) (nodes root)"
       "length (kept (nid X) root) + length (nodes X) = length (nodes root)"
    using kept_distinct(1)[OF d X, THEN conjunct1] kept_distinct(1)[OF d X, THEN conjunct2]
    by (simp_all add: ids_def)
  have l: "map links (nodes root') = map (unlink (nid X)) (filter (\<lambda>m. nid m \<notin> set (ids X)) (nodes root))"
    using w(3) r k(1) by simp
  have len: "length (nodes root') = length (kept (nid X) root)"
    using arg_cong[OF w(3), of length] r by simp
  have "map fst (map links (nodes root')) = map fst (map (unlink (nid X)) (filter (\<lambda>m. nid m \<notin> set (ids X)) (nodes root)))"
    using l by simp
  then have idl: "ids root' = filter (\<lambda>i. i \<notin> set (ids X)) (ids root)"
    by (simp add: ids_def links_def filter_map comp_def)
  have ids: "set (ids root') = set (ids root) - set (ids X)" unfolding idl by auto
  show ?thesis using w(1) r guard len k(2) ids idl l
    by (simp add: handleDeleteNode_def updateTree_def)
qed

theorem handleDeleteNode_removes_subtree_witness:
  "\<exists>root' h'.
     handleDeleteNode ''d''
       (Some (Node 0 ''root'' ''my-project'' Folder
          (Some [Node 1 ''a'' ''a.txt'' File None None,
                 Node 2 ''d'' ''docs'' Folder
                   (Some [Node 3 ''e'' ''e.txt'' File None None]) (Some True),
                 Node 4 ''b'' ''b.txt'' File None None]) (Some True))) 5
       = (Some root', h')
     \<and> length (nodes root') + 2 = 5
     \<and> ids root' = [''root'', ''a'', ''b'']
     \<and> map links (nodes root') =
          [(''root'', ''my-project'', Folder, Some True, Some [''a'', ''b'']),
           (''a'', ''a.txt'', File, None, None),
           (''b'', ''b.txt'', File, None, None)]"
proof -
  let ?X = "Node 2 ''d'' ''docs'' Folder (Some [Node 3 ''e'' ''e.txt'' File None None]) (Some True)"
  let ?root = "Node 0 ''root'' ''my-project'' Folder
          (Some [Node 1 ''a'' ''a.txt'' File None None, ?X,
                 Node 4 ''b'' ''b.txt'' File None None]) (Some True)"
  have 1: "\<forall>m\<in>set (nodes ?root). addr m < 5" by simp
  have 2: "distinct (ids ?root)" by (simp add: ids_def)
  have 3: "nid ?root = ''root''" by simp
  have 4: "?X \<in> set (nodes ?root)" by simp
  have 5: "?X \<noteq> ?root" by simp
  from handleDeleteNode_removes_subtree[OF 1 2 3 4 5] obtain root' h' where
    r: "handleDeleteNode (nid ?X) (Some ?root) 5 = (Some root', h')"
       "length (nodes root') + length (nodes ?X) = length (nodes ?root)"
       "ids root' = filter (\<lambda>i. i \<notin> set (ids ?X)) (ids ?root)"
       "map links (nodes root') =
         map (unlink (nid ?X)) (filter (\<lambda>m. nid m \<notin> set (ids ?X)) (nodes ?root))"
    by blast
  have a: "handleDeleteNode ''d'' (Some ?root) 5 = (Some root', h')" using r(1) by simp
  have b: "length (nodes root') + 2 = 5" using r(2) by simp
  have c: "ids root' = [''root'', ''a'', ''b'']" using r(3) by (simp add: ids_def)
  have d: "map links (nodes root') =
          [(''root'', ''my-project'', Folder, Some True, Some [''a'', ''b'']),
           (''a'', ''a.txt'', File, None, None),
           (''b'', ''b.txt'', File, None, None)]" using r(4) by (simp add: ids_def)
  show ?thesis by (intro exI[of _ root'] exI[of _ h'] conjI a b c d)
qed

section \<open>Adding a node (C3)\<close>

lemma nodesAll_append: "nodesAll (xs @ ys) = nodesAll xs @ nodesAll ys"
  by (induction xs) simp_all

lemma add_walk:
  assumes leaf: "nodes new = [new]"
  shows
  "(\<forall>m\<in>set (nodes n). addr m < h) \<Longrightarrow> addr new < h \<Longrightarrow>
     \<exists>n' h'. modifyTree (handleAddNode_logic p new) n h = (Some n', h') \<and> h \<le> h'
       \<and> (n' = n \<or> h \<le> addr n') \<and> nid n' = nid n
       \<and> (\<forall>m\<in>set (nodes n'). addr m < h')
       \<and> mset (map links (nodes n')) =
           mset (map (grow p new) (nodes n))
           + mset (map (\<lambda>_. links new) (filter (matches p) (nodes n)))
       \<and> (\<forall>m\<in>set (nodes n). (\<forall>x\<in>set (nodes m). \<not> matches p x) \<longrightarrow> m \<in> set (nodes n'))
       \<and> (\<forall>m\<in>set (nodes n). matches p m \<longrightarrow> (\<exists>m'\<in>set (nodes n'). grownFrom new m m'))"
  "(\<forall>m\<in>set (nodesAll cs). addr m < h) \<Longrightarrow> addr new < h \<Longrightarrow>
     \<exists>cs' h'. modifyChildren (handleAddNode_logic p new) cs h = (cs', h') \<and> h \<le> h'
       \<and> list_all2 (\<lambda>c' c. c' = c \<or> h \<le> addr c') cs' cs
       \<and> map nid cs' = map nid cs
       \<and> (\<forall>m\<in>set (nodesAll cs'). addr m < h')
       \<and> mset (map links (nodesAll cs')) =
           mset (map (grow p new) (nodesAll cs))
           + mset (map (\<lambda>_. links new) (filter (matches p) (nodesAll cs)))
       \<and> (\<forall>m\<in>set (nodesAll cs). (\<forall>x\<in>set (nodes m). \<not> matches p x) \<longrightarrow> m \<in> set (nodesAll cs'))
       \<and> (\<forall>m\<in>set (nodesAll cs). matches p m \<longrightarrow> (\<exists>m'\<in>set (nodesAll cs'). grownFrom new m m'))"
proof (induction "handleAddNode_logic p new" n h and "handleAddNode_logic p new" cs h
       rule: modifyTree_modifyChildren.induct)
  case (1 a i n t e h)
  then show ?case using leaf
    by (auto simp add: handleAddNode_logic_def links_Node grownFrom_def)
next
  case pr: (2 a i n t cs e h)
  let ?A = "handleAddNode_logic p new"
  from pr.prems have old: "\<forall>m\<in>set (nodesAll cs). addr m < h" and olda: "a < h" by simp_all
  from pr.hyps[OF old pr.prems(2)] obtain cs' h1 where
    c: "modifyChildren ?A cs h = (cs', h1)" "h \<le> h1"
       "list_all2 (\<lambda>c' c. c' = c \<or> h \<le> addr c') cs' cs"
       "map nid cs' = map nid cs"
       "\<forall>m\<in>set (nodesAll cs'). addr m < h1"
       "mset (map links (nodesAll cs')) =
           mset (map (grow p new) (nodesAll cs))
           + mset (map (\<lambda>_. links new) (filter (matches p) (nodesAll cs)))"
       "\<forall>m\<in>set (nodesAll cs). (\<forall>x\<in>set (nodes m). \<not> matches p x) \<longrightarrow> m \<in> set (nodesAll cs')"
       "\<forall>m\<in>set (nodesAll cs). matches p m \<longrightarrow> (\<exists>m'\<in>set (nodesAll cs'). grownFrom new m m')"
    by blast
  have len: "length cs' = length cs" using c(3) by (rule list_all2_lengthD)
  let ?old = "Node a i n t (Some cs) e" and ?new = "Node h1 i n t (Some cs') e"
  have mt: "modifyTree ?A ?old h =
      (if someDiffers cs' cs then ?A ?new (Suc h1) else ?A ?old h1)"
    using c(1) len by simp
  have newh1: "addr new < h1" using pr.prems(2) c(2) by simp
  have inner7: "\<forall>m\<in>set (nodesAll cs). (\<forall>x\<in>set (nodes m). \<not> matches p x) \<longrightarrow> m \<in> set (nodesAll cs' @ ys)" for ys
    using c(7) by simp
  show ?case
  proof (cases "someDiffers cs' cs")
    case True
    have touched: "\<not> (\<forall>x\<in>set (nodes ?old). \<not> matches p x)"
    proof
      assume none: "\<forall>x\<in>set (nodes ?old). \<not> matches p x"
      then have "\<forall>m\<in>set (nodesAll cs). \<forall>k. fst (?A m k) = Some m"
        by (auto simp: handleAddNode_logic_def)
      from stable_all(2)[OF this, of h] c(1) have "cs' = cs" by simp
      then show False using True someDiffers_same[of cs cs] by simp
    qed
    show ?thesis
    proof (cases "i = p \<and> t = Folder")
      case m: True
      let ?res = "Node (Suc h1) i n t (Some (cs' @ [new])) (Some True)"
      have res: "modifyTree ?A ?old h = (Some ?res, Suc (Suc h1))"
        unfolding mt using True m by (simp add: handleAddNode_logic_def)
      have g: "grownFrom new ?old ?res"
        using c(4) by (simp add: grownFrom_def)
      have n: "nodes ?res = ?res # nodesAll cs' @ [new]" using leaf by (simp add: nodesAll_append)
      have 1: "\<forall>m\<in>set (nodes ?res). addr m < Suc (Suc h1)"
        unfolding n using c(5) newh1 by (auto simp: less_Suc_eq)
      have 2: "mset (map links (nodes ?res)) =
           mset (map (grow p new) (nodes ?old))
           + mset (map (\<lambda>_. links new) (filter (matches p) (nodes ?old)))"
        unfolding n using m c(4,6) by (simp add: links_Node)
      have 3: "\<forall>m\<in>set (nodes ?old). (\<forall>x\<in>set (nodes m). \<not> matches p x) \<longrightarrow> m \<in> set (nodes ?res)"
        unfolding n using touched c(7) by auto
      have 4: "\<forall>m\<in>set (nodes ?old). matches p m \<longrightarrow> (\<exists>m'\<in>set (nodes ?res). grownFrom new m m')"
        unfolding n using g c(8) by auto
      show ?thesis unfolding res using c(2) 1 2 3 4 by simp
    next
      case m: False
      have res: "modifyTree ?A ?old h = (Some ?new, Suc h1)"
        unfolding mt using True m by (auto simp add: handleAddNode_logic_def)
      have 1: "\<forall>m\<in>set (nodes ?new). addr m < Suc h1"
        using c(5) by (auto simp: less_Suc_eq)
      have 2: "mset (map links (nodes ?new)) =
           mset (map (grow p new) (nodes ?old))
           + mset (map (\<lambda>_. links new) (filter (matches p) (nodes ?old)))"
        using m c(4,6) by (auto simp add: links_Node)
      have 3: "\<forall>m\<in>set (nodes ?old). (\<forall>x\<in>set (nodes m). \<not> matches p x) \<longrightarrow> m \<in> set (nodes ?new)"
        using touched c(7) by auto
      have 4: "\<forall>m\<in>set (nodes ?old). matches p m \<longrightarrow> (\<exists>m'\<in>set (nodes ?new). grownFrom new m m')"
        using m c(8) by auto
      show ?thesis unfolding res using c(2) 1 2 3 4 by simp
    qed
  next
    case False
    have eq: "cs' = cs" using unchanged_children[OF False c(3) old] .
    show ?thesis
    proof (cases "i = p \<and> t = Folder")
      case m: True
      let ?res = "Node h1 i n t (Some (cs @ [new])) (Some True)"
      have res: "modifyTree ?A ?old h = (Some ?res, Suc h1)"
        unfolding mt using False m by (simp add: handleAddNode_logic_def)
      have g: "grownFrom new ?old ?res"
        by (simp add: grownFrom_def)
      have n: "nodes ?res = ?res # nodesAll cs @ [new]" using leaf by (simp add: nodesAll_append)
      have 1: "\<forall>m\<in>set (nodes ?res). addr m < Suc h1"
        unfolding n using c(5) newh1 eq by (auto simp: less_Suc_eq)
      have 2: "mset (map links (nodes ?res)) =
           mset (map (grow p new) (nodes ?old))
           + mset (map (\<lambda>_. links new) (filter (matches p) (nodes ?old)))"
        unfolding n using m c(6) eq by (simp add: links_Node)
      have 3: "\<forall>m\<in>set (nodes ?old). (\<forall>x\<in>set (nodes m). \<not> matches p x) \<longrightarrow> m \<in> set (nodes ?res)"
        unfolding n using m by auto
      have 4: "\<forall>m\<in>set (nodes ?old). matches p m \<longrightarrow> (\<exists>m'\<in>set (nodes ?res). grownFrom new m m')"
        unfolding n using g c(8) eq by auto
      show ?thesis unfolding res using c(2) 1 2 3 4 by simp
    next
      case m: False
      have res: "modifyTree ?A ?old h = (Some ?old, h1)"
        unfolding mt using False m by (auto simp add: handleAddNode_logic_def)
      have 1: "\<forall>m\<in>set (nodes ?old). addr m < h1"
        using c(5) eq olda c(2) by auto
      have 2: "mset (map links (nodes ?old)) =
           mset (map (grow p new) (nodes ?old))
           + mset (map (\<lambda>_. links new) (filter (matches p) (nodes ?old)))"
        using m c(6) eq by (auto simp add: links_Node)
      have 3: "\<forall>m\<in>set (nodes ?old). (\<forall>x\<in>set (nodes m). \<not> matches p x) \<longrightarrow> m \<in> set (nodes ?old)"
        by simp
      have 4: "\<forall>m\<in>set (nodes ?old). matches p m \<longrightarrow> (\<exists>m'\<in>set (nodes ?old). grownFrom new m m')"
        using m c(8) eq by auto
      show ?thesis unfolding res using c(2) 1 2 3 4 by simp
    qed
  qed
next
  case 3
  then show ?case by simp
next
  case pr: (4 c cs h)
  let ?A = "handleAddNode_logic p new"
  from pr.prems have oldc: "\<forall>m\<in>set (nodes c). addr m < h" by simp
  from pr.hyps(1)[OF oldc pr.prems(2)] obtain c' h1 where
    c: "modifyTree ?A c h = (Some c', h1)" "h \<le> h1"
       "c' = c \<or> h \<le> addr c'" "nid c' = nid c"
       "\<forall>m\<in>set (nodes c'). addr m < h1"
       "mset (map links (nodes c')) =
           mset (map (grow p new) (nodes c))
           + mset (map (\<lambda>_. links new) (filter (matches p) (nodes c)))"
       "\<forall>m\<in>set (nodes c). (\<forall>x\<in>set (nodes m). \<not> matches p x) \<longrightarrow> m \<in> set (nodes c')"
       "\<forall>m\<in>set (nodes c). matches p m \<longrightarrow> (\<exists>m'\<in>set (nodes c'). grownFrom new m m')"
    by blast
  from pr.prems have "\<forall>m\<in>set (nodesAll cs). addr m < h" by simp
  then have oldcs: "\<forall>m\<in>set (nodesAll cs). addr m < h1"
    using c(2) by (meson less_le_trans)
  have newh1: "addr new < h1" using pr.prems(2) c(2) by simp
  from pr.hyps(2)[OF c(1)[symmetric] oldcs newh1] obtain cs' h2 where
    cs: "modifyChildren ?A cs h1 = (cs', h2)" "h1 \<le> h2"
       "list_all2 (\<lambda>c' c. c' = c \<or> h1 \<le> addr c') cs' cs"
       "map nid cs' = map nid cs"
       "\<forall>m\<in>set (nodesAll cs'). addr m < h2"
       "mset (map links (nodesAll cs')) =
           mset (map (grow p new) (nodesAll cs))
           + mset (map (\<lambda>_. links new) (filter (matches p) (nodesAll cs)))"
       "\<forall>m\<in>set (nodesAll cs). (\<forall>x\<in>set (nodes m). \<not> matches p x) \<longrightarrow> m \<in> set (nodesAll cs')"
       "\<forall>m\<in>set (nodesAll cs). matches p m \<longrightarrow> (\<exists>m'\<in>set (nodesAll cs'). grownFrom new m m')"
    by blast
  have res: "modifyChildren ?A (c # cs) h = (c' # cs', h2)" using c(1) cs(1) by simp
  have 0: "list_all2 (\<lambda>c' c. c' = c \<or> h \<le> addr c') (c' # cs') (c # cs)"
    using c(2,3) cs(3) by (auto elim!: list_all2_mono)
  have 1: "\<forall>m\<in>set (nodesAll (c' # cs')). addr m < h2"
    using c(5) cs(2,5) by auto
  have 2: "mset (map links (nodesAll (c' # cs'))) =
           mset (map (grow p new) (nodesAll (c # cs)))
           + mset (map (\<lambda>_. links new) (filter (matches p) (nodesAll (c # cs))))"
    using c(6) cs(6) by simp
  have 3: "\<forall>m\<in>set (nodesAll (c # cs)). (\<forall>x\<in>set (nodes m). \<not> matches p x) \<longrightarrow> m \<in> set (nodesAll (c' # cs'))"
    using c(7) cs(7) by auto
  have 4: "\<forall>m\<in>set (nodesAll (c # cs)). matches p m \<longrightarrow> (\<exists>m'\<in>set (nodesAll (c' # cs')). grownFrom new m m')"
    using c(8) cs(8) by auto
  show ?case unfolding res using c(2,4) cs(2,4) 0 1 2 3 4 by simp
qed

lemma filter_unique_id:
  "distinct (map nid xs) \<Longrightarrow> D \<in> set xs \<Longrightarrow> ntype D = Folder \<Longrightarrow>
     filter (\<lambda>m. nid m = nid D \<and> ntype m = Folder) xs = [D]"
proof (induction xs)
  case Nil
  then show ?case by simp
next
  case (Cons x xs)
  show ?case
  proof (cases "x = D")
    case True
    have "nid D \<notin> nid ` set xs" using Cons.prems(1) True by simp
    then have "filter (\<lambda>m. nid m = nid D \<and> ntype m = Folder) xs = []"
      unfolding filter_empty_conv by (metis image_eqI)
    then show ?thesis using True Cons.prems(3) by simp
  next
    case False
    then have "D \<in> set xs" using Cons.prems(2) by simp
    moreover from this have "nid x \<noteq> nid D" using Cons.prems(1) by force
    ultimately show ?thesis using Cons by simp
  qed
qed

lemma newNodeData_leaf: "nodes (newNodeData a p now rand name ty) = [newNodeData a p now rand name ty]"
  by (simp add: newNodeData_def)

text \<open>
  C3. Take a tree allocated before the call whose ids are unique (the invariant of the
  data model) and a folder \<open>D\<close> of it whose id is the target parent id. The add
  operation installs a tree with a node \<open>D'\<close> that has the id, name and type of \<open>D\<close>,
  the flag \<open>true\<close>, and as children the children of \<open>D\<close> (by id, in order) followed by
  the new node as the last one. Every node that is neither \<open>D\<close> nor an ancestor of
  \<open>D\<close> (its subtree does not hold \<open>D\<close>) is a node of the new tree, the same object.
  The nodes of the new tree show what the old nodes showed, \<open>D\<close> replaced by \<open>D'\<close>,
  plus exactly one more node: the new one, which has the given name.
\<close>

theorem handleAddNode_appends_child:
  assumes old: "\<forall>m\<in>set (nodes root). addr m < h"
    and uniq: "distinct (ids root)"
    and D: "D \<in> set (nodes root)" "nid D = parentId" "ntype D = Folder"
  shows "\<exists>root' h' D' cs'.
     handleAddNode parentId name type now rand (Some root) h = (Some root', h')
     \<and> D' \<in> set (nodes root') \<and> nid D' = parentId \<and> nname D' = nname D \<and> ntype D' = Folder
     \<and> isExpanded D' = Some True
     \<and> children D' = Some (cs' @ [newNodeData h parentId now rand name type])
     \<and> map nid cs' = (case children D of None \<Rightarrow> [] | Some cs \<Rightarrow> map nid cs)
     \<and> (\<forall>m\<in>set (nodes root). D \<notin> set (nodes m) \<longrightarrow> m \<in> set (nodes root'))
     \<and> mset (map links (nodes root')) =
          mset (map (\<lambda>m. if nid m = parentId then links D' else links m) (nodes root))
          + {#links (newNodeData h parentId now rand name type)#}
     \<and> nname (newNodeData h parentId now rand name type) = name
     \<and> length (nodes root') = length (nodes root) + 1"
proof -
  let ?new = "newNodeData h parentId now rand name type"
  have d: "distinct (map nid (nodes root))" using uniq by (simp add: ids_def)
  have old': "\<forall>m\<in>set (nodes root). addr m < Suc h" using old by (simp add: less_Suc_eq)
  have newh: "addr ?new < Suc h" by (simp add: newNodeData_def)
  from add_walk(1)[OF newNodeData_leaf old' newh, of parentId] obtain root' h' where
    w: "modifyTree (handleAddNode_logic parentId ?new) root (Suc h) = (Some root', h')"
       "mset (map links (nodes root')) =
           mset (map (grow parentId ?new) (nodes root))
           + mset (map (\<lambda>_. links ?new) (filter (matches parentId) (nodes root)))"
       "\<forall>m\<in>set (nodes root). (\<forall>x\<in>set (nodes m). \<not> matches parentId x) \<longrightarrow> m \<in> set (nodes root')"
       "\<forall>m\<in>set (nodes root). matches parentId m \<longrightarrow> (\<exists>m'\<in>set (nodes root'). grownFrom ?new m m')"
    by blast
  have one: "filter (matches parentId) (nodes root) = [D]"
    using filter_unique_id[OF d D(1,3)] D(2) by simp
  from w(4) D obtain D' where D': "D' \<in> set (nodes root')" "grownFrom ?new D D'" by blast
  from D'(2) obtain cs'' where ch: "children D' = Some cs''" "cs'' \<noteq> []" "last cs'' = ?new"
      "map nid (butlast cs'') = (case children D of None \<Rightarrow> [] | Some cs \<Rightarrow> map nid cs)"
    by (auto simp: grownFrom_def split: option.splits)
  have ch': "children D' = Some (butlast cs'' @ [?new])"
    using ch(1,2,3) by (metis append_butlast_last_id)
  have fields: "nid D' = parentId" "nname D' = nname D" "ntype D' = Folder" "isExpanded D' = Some True"
    using D'(2) D(2,3) by (simp_all add: grownFrom_def)
  have only: "m = D" if "m \<in> set (nodes root)" "nid m = parentId" for m
    using that D(1,2) d by (metis distinct_map inj_on_def)
  have upd: "map (grow parentId ?new) (nodes root)
           = map (\<lambda>m. if nid m = parentId then links D' else links m) (nodes root)"
  proof (rule map_cong[OF refl])
    fix m assume m: "m \<in> set (nodes root)"
    show "grow parentId ?new m = (if nid m = parentId then links D' else links m)"
    proof (cases "nid m = parentId")
      case True
      then have "m = D" using only m by blast
      then show ?thesis using True D(3) fields ch' ch(4)
        by (simp add: links_def newNodeData_def)
    next
      case False
      then show ?thesis by simp
    qed
  qed
  have keep: "\<forall>m\<in>set (nodes root). D \<notin> set (nodes m) \<longrightarrow> m \<in> set (nodes root')"
  proof (intro ballI impI)
    fix m assume m: "m \<in> set (nodes root)" and nD: "D \<notin> set (nodes m)"
    have "\<not> matches parentId x" if x: "x \<in> set (nodes m)" for x
    proof
      assume "matches parentId x"
      moreover have "x \<in> set (nodes root)" using subtree_nodes(1)[OF m] x by blast
      ultimately have "x = D" using only by blast
      then show False using x nD by simp
    qed
    then show "m \<in> set (nodes root')" using w(3) m by blast
  qed
  have ms: "mset (map links (nodes root')) =
          mset (map (\<lambda>m. if nid m = parentId then links D' else links m) (nodes root))
          + {#links ?new#}"
    using w(2) unfolding one upd by simp
  have "size (mset (map links (nodes root'))) = size (mset (map (\<lambda>m. if nid m = parentId then links D' else links m) (nodes root))
          + {#links ?new#})" using ms by simp
  then have len: "length (nodes root') = length (nodes root) + 1" by simp
  have nm: "nname ?new = name" by (simp add: newNodeData_def)
  have run: "handleAddNode parentId name type now rand (Some root) h = (Some root', h')"
    using w(1) by (simp add: handleAddNode_def updateTree_def)
  show ?thesis
    using run D'(1) fields ch' ch(4) keep ms nm len by blast
qed

theorem handleAddNode_appends_child_witness:
  "\<exists>root' h' D' cs'.
     handleAddNode ''d'' ''x.txt'' File ''17'' ''0.5''
       (Some (Node 0 ''root'' ''my-project'' Folder
          (Some [Node 1 ''d'' ''docs'' Folder
                   (Some [Node 2 ''e'' ''e.txt'' File None None]) (Some False),
                 Node 3 ''b'' ''b.txt'' File None None]) (Some True))) 4
       = (Some root', h')
     \<and> D' \<in> set (nodes root') \<and> nid D' = ''d'' \<and> nname D' = ''docs'' \<and> ntype D' = Folder
     \<and> isExpanded D' = Some True
     \<and> children D' = Some (cs' @ [Node 4 ''d-17-0.5'' ''x.txt'' File None None])
     \<and> map nid cs' = [''e'']
     \<and> Node 3 ''b'' ''b.txt'' File None None \<in> set (nodes root')
     \<and> Node 2 ''e'' ''e.txt'' File None None \<in> set (nodes root')
     \<and> length (nodes root') = 5"
proof -
  let ?D = "Node 1 ''d'' ''docs'' Folder (Some [Node 2 ''e'' ''e.txt'' File None None]) (Some False)"
  let ?root = "Node 0 ''root'' ''my-project'' Folder
          (Some [?D, Node 3 ''b'' ''b.txt'' File None None]) (Some True)"
  let ?new = "newNodeData 4 ''d'' ''17'' ''0.5'' ''x.txt'' File"
  have 1: "\<forall>m\<in>set (nodes ?root). addr m < 4" by simp
  have 2: "distinct (ids ?root)" by (simp add: ids_def)
  have 3: "?D \<in> set (nodes ?root)" "nid ?D = ''d''" "ntype ?D = Folder" by simp_all
  from handleAddNode_appends_child[OF 1 2 3, of "''x.txt''" File "''17''" "''0.5''"]
  obtain root' h' D' cs' where
    r: "handleAddNode ''d'' ''x.txt'' File ''17'' ''0.5'' (Some ?root) 4 = (Some root', h')"
       "D' \<in> set (nodes root')" "nid D' = ''d''" "nname D' = nname ?D" "ntype D' = Folder"
       "isExpanded D' = Some True"
       "children D' = Some (cs' @ [?new])"
       "map nid cs' = (case children ?D of None \<Rightarrow> [] | Some cs \<Rightarrow> map nid cs)"
       "\<forall>m\<in>set (nodes ?root). ?D \<notin> set (nodes m) \<longrightarrow> m \<in> set (nodes root')"
       "length (nodes root') = length (nodes ?root) + 1"
    by blast
  have a: "nname D' = ''docs''" using r(4) by simp
  have b: "children D' = Some (cs' @ [Node 4 ''d-17-0.5'' ''x.txt'' File None None])"
    using r(7) by (simp add: newNodeData_def)
  have c: "map nid cs' = [''e'']" using r(8) by simp
  have d: "Node 3 ''b'' ''b.txt'' File None None \<in> set (nodes root')"
    using r(9) by simp
  have e: "Node 2 ''e'' ''e.txt'' File None None \<in> set (nodes root')"
    using r(9) by simp
  have f: "length (nodes root') = 5" using r(10) by simp
  show ?thesis
    by (intro exI[of _ root'] exI[of _ h'] exI[of _ D'] exI[of _ cs'] conjI r(1,2,3) a r(5,6) b c d e f)
qed

end
